theory Spec2Isabelle
  imports Complex_Main
begin

section \<open>Data model (types/game.ts)\<close>

text \<open>
  \<^verbatim>\<open>Player = "X" | "O"\<close>, \<^verbatim>\<open>Cell = Player | null\<close>, \<^verbatim>\<open>Board = Cell[][]\<close>.
  The constructors carry the names of the source's constants \<^verbatim>\<open>PLAYER_X\<close> and
  \<^verbatim>\<open>PLAYER_O\<close>. A cell is \<open>None\<close> for \<^verbatim>\<open>null\<close>.
\<close>

datatype player = PLAYER_X | PLAYER_O

type_synonym cell = "player option"

type_synonym board = "cell list list"

text \<open>\<^verbatim>\<open>WinningLine = [number, number][]\<close>: the coordinates are loop indices.\<close>

type_synonym winning_line = "(nat \<times> nat) list"

text \<open>
  \<^verbatim>\<open>Move = { row: number; col: number; score?: number }\<close>. The optional score is
  never written by the code under study. Coordinates are integers: the rules module
  itself checks the sign (\<^verbatim>\<open>row >= 0\<close>).
\<close>

record Move =
  row :: int
  col :: int

text \<open>
  Exceptions of the source: \<^verbatim>\<open>throw new Error("Invalid move: ...")\<close> in
  \<^verbatim>\<open>makeMove\<close>, and the \<^verbatim>\<open>TypeError\<close> JavaScript raises when a property
  of \<^verbatim>\<open>undefined\<close> is read.
\<close>

datatype error = InvalidMove | TypeError

section \<open>Rules (utils/gameLogic.ts)\<close>

text \<open>
  \<^verbatim>\<open>generateWinningCombinations(size)\<close>: four loops pushing, in this order, the rows,
  the columns, the main diagonal and the anti-diagonal.
\<close>

definition generateWinningCombinations :: "nat \<Rightarrow> winning_line list" where
  "generateWinningCombinations sz =
     map (\<lambda>r. map (\<lambda>c. (r, c)) [0..<sz]) [0..<sz]
     @ map (\<lambda>c. map (\<lambda>r. (r, c)) [0..<sz]) [0..<sz]
     @ [map (\<lambda>i. (i, i)) [0..<sz]]
     @ [map (\<lambda>i. (i, sz - 1 - i)) [0..<sz]]"

text \<open>\<^verbatim>\<open>createEmptyBoard(size)\<close>.\<close>

definition createEmptyBoard :: "nat \<Rightarrow> board" where
  "createEmptyBoard sz = replicate sz (replicate sz None)"

text \<open>
  The read \<^verbatim>\<open>board[r][c]\<close> for a row index \<open>r\<close> inside the board. JavaScript
  yields \<^verbatim>\<open>undefined\<close> (here the outer \<open>None\<close>) when \<open>c\<close> is beyond the end of
  the row; \<open>Some None\<close> is \<^verbatim>\<open>null\<close>. Every read of the source has its row index
  below \<^verbatim>\<open>board.length\<close> (checked before, or generated from it).
\<close>

definition cell_at :: "board \<Rightarrow> nat \<Rightarrow> nat \<Rightarrow> cell option" where
  "cell_at board r c =
     (if r < length board \<and> c < length (board ! r) then Some (board ! r ! c) else None)"

text \<open>\<^verbatim>\<open>isValidMove(board, row, col)\<close>.\<close>

definition isValidMove :: "board \<Rightarrow> int \<Rightarrow> int \<Rightarrow> bool" where
  "isValidMove board r c =
     (let sz = int (length board) in
      r \<ge> 0 \<and> r < sz \<and> c \<ge> 0 \<and> c < sz \<and> cell_at board (nat r) (nat c) = Some None)"

text \<open>\<^verbatim>\<open>cloneBoard\<close> copies every row; on values it is the identity.\<close>

definition cloneBoard :: "board \<Rightarrow> board" where
  "cloneBoard board = map (\<lambda>r. r) board"

text \<open>
  \<^verbatim>\<open>makeMove(board, row, col, player)\<close>: throws on an invalid move, otherwise writes
  the cell of a copy.
\<close>

definition makeMove :: "board \<Rightarrow> int \<Rightarrow> int \<Rightarrow> player \<Rightarrow> error + board" where
  "makeMove board r c p =
     (if \<not> isValidMove board r c then Inl InvalidMove
      else let newBoard = cloneBoard board in
        Inr (newBoard[nat r := (newBoard ! nat r)[nat c := Some p]]))"

text \<open>\<^verbatim>\<open>getAvailableMoves(board)\<close>: row-major scan for \<^verbatim>\<open>null\<close> cells.\<close>

definition getAvailableMoves :: "board \<Rightarrow> Move list" where
  "getAvailableMoves board =
     (let sz = length board in
      concat (map (\<lambda>r. concat (map (\<lambda>c.
        if cell_at board r c = Some None then [\<lparr>row = int r, col = int c\<rparr>] else [])
        [0..<sz])) [0..<sz]))"

text \<open>
  \<^verbatim>\<open>checkWinner(board)\<close>. The loop over the combinations returns at the first
  complete one. \<^verbatim>\<open>combination[0][0]\<close> on an empty combination (board of size 0,
  whose two diagonals are empty) reads a property of \<^verbatim>\<open>undefined\<close>.
\<close>

record winner_result =
  winner :: "player option"
  winningLine :: "winning_line option"

fun checkWinner_loop :: "board \<Rightarrow> winning_line list \<Rightarrow> error + winner_result" where
  "checkWinner_loop board [] = Inr \<lparr>winner = None, winningLine = None\<rparr>"
| "checkWinner_loop board (combination # rest) =
     (case combination of
        [] \<Rightarrow> Inl TypeError
      | (r0, c0) # _ \<Rightarrow>
         (case cell_at board r0 c0 of
            Some (Some firstCell) \<Rightarrow>
              if list_all (\<lambda>(r, c). cell_at board r c = Some (Some firstCell)) combination
              then Inr \<lparr>winner = Some firstCell, winningLine = Some combination\<rparr>
              else checkWinner_loop board rest
          | _ \<Rightarrow> checkWinner_loop board rest))"

definition checkWinner :: "board \<Rightarrow> error + winner_result" where
  "checkWinner board = checkWinner_loop board (generateWinningCombinations (length board))"

text \<open>
  A line is complete for a mark when every one of its cells holds that mark.
\<close>

definition line_complete :: "board \<Rightarrow> winning_line \<Rightarrow> player \<Rightarrow> bool" where
  "line_complete board line p = list_all (\<lambda>(r, c). cell_at board r c = Some (Some p)) line"

text \<open>\<^verbatim>\<open>isBoardFull(board)\<close>: no cell is \<^verbatim>\<open>null\<close>.\<close>

definition isBoardFull :: "board \<Rightarrow> bool" where
  "isBoardFull board = list_all (list_all (\<lambda>cell. cell \<noteq> None)) board"

text \<open>\<^verbatim>\<open>isGameOver(board)\<close>.\<close>

definition isGameOver :: "board \<Rightarrow> error + bool" where
  "isGameOver board =
     (case checkWinner board of
        Inl e \<Rightarrow> Inl e
      | Inr res \<Rightarrow> Inr (winner res \<noteq> None \<or> isBoardFull board))"

text \<open>\<^verbatim>\<open>getOpponent(player)\<close>.\<close>

definition getOpponent :: "player \<Rightarrow> player" where
  "getOpponent p = (if p = PLAYER_X then PLAYER_O else PLAYER_X)"

text \<open>\<^verbatim>\<open>evaluateBoard(board, maximizingPlayer)\<close>: 10, -10 or 0.\<close>

definition evaluateBoard :: "board \<Rightarrow> player \<Rightarrow> error + int" where
  "evaluateBoard board maximizingPlayer =
     (case checkWinner board of
        Inl e \<Rightarrow> Inl e
      | Inr res \<Rightarrow>
          Inr (if winner res = Some maximizingPlayer then 10
               else if winner res = Some (getOpponent maximizingPlayer) then - 10
               else 0))"

text \<open>\<^verbatim>\<open>getCenterPosition(boardSize)\<close> and \<^verbatim>\<open>getCornerPositions(boardSize)\<close>.\<close>

definition getCenterPosition :: "nat \<Rightarrow> Move" where
  "getCenterPosition boardSize =
     (let center = int (boardSize div 2) in \<lparr>row = center, col = center\<rparr>)"

definition getCornerPositions :: "nat \<Rightarrow> Move list" where
  "getCornerPositions boardSize =
     (let lastIndex = int boardSize - 1 in
      [\<lparr>row = 0, col = 0\<rparr>, \<lparr>row = 0, col = lastIndex\<rparr>,
       \<lparr>row = lastIndex, col = 0\<rparr>, \<lparr>row = lastIndex, col = lastIndex\<rparr>])"

text \<open>
  The data-model invariant of a board: a square grid of side at least 1.
\<close>

definition wf_board :: "board \<Rightarrow> bool" where
  "wf_board board = (0 < length board \<and> list_all (\<lambda>r. length r = length board) board)"


text \<open>
  \<^verbatim>\<open>getRandomMove(board)\<close> and the idiom
  \<^verbatim>\<open>xs[Math.floor(Math.random() * xs.length)]\<close>. The draw \<open>u\<close> of
  \<^verbatim>\<open>Math.random()\<close> is a parameter; it lies in \<open>[0, 1)\<close>, which keeps the index
  inside the array. Outside that range the read is \<^verbatim>\<open>undefined\<close>, here \<open>None\<close>.
  The product is taken in the reals, where the code takes it in doubles; the two agree
  on the draws \<open>0\<close> and \<open>1 / 2\<close>, the only ones at which the theorems below evaluate it.
\<close>

definition random_element :: "'a list \<Rightarrow> real \<Rightarrow> 'a option" where
  "random_element xs u =
     (let i = \<lfloor>u * real (length xs)\<rfloor> in
      if 0 \<le> i \<and> nat i < length xs then Some (xs ! nat i) else None)"

definition getRandomMove :: "board \<Rightarrow> real \<Rightarrow> Move option" where
  "getRandomMove board u =
     (let availableMoves = getAvailableMoves board in
      if length availableMoves = 0 then None else random_element availableMoves u)"

section \<open>Search engine (utils/aiEngine.ts)\<close>

text \<open>
  JavaScript numbers as the engine uses them: integers and the two infinities that
  initialise \<^verbatim>\<open>alpha\<close>, \<^verbatim>\<open>beta\<close>, \<^verbatim>\<open>maxEval\<close> and \<^verbatim>\<open>minEval\<close>.
\<close>

datatype number = NegInf | Fin int | PosInf

instantiation number :: linorder
begin

fun less_eq_number :: "number \<Rightarrow> number \<Rightarrow> bool" where
  "less_eq_number NegInf NegInf = True"
| "less_eq_number NegInf (Fin b) = True"
| "less_eq_number NegInf PosInf = True"
| "less_eq_number (Fin a) NegInf = False"
| "less_eq_number (Fin a) (Fin b) = (a \<le> b)"
| "less_eq_number (Fin a) PosInf = True"
| "less_eq_number PosInf NegInf = False"
| "less_eq_number PosInf (Fin b) = False"
| "less_eq_number PosInf PosInf = True"

definition less_number :: "number \<Rightarrow> number \<Rightarrow> bool" where
  "less_number a b = (a \<le> b \<and> \<not> b \<le> a)"

instance
proof
  fix x y z :: number
  show "(x < y) = (x \<le> y \<and> \<not> y \<le> x)" by (simp add: less_number_def)
  show "x \<le> x" by (cases x) simp_all
  show "x \<le> y \<Longrightarrow> y \<le> z \<Longrightarrow> x \<le> z" by (cases x; cases y; cases z) simp_all
  show "x \<le> y \<Longrightarrow> y \<le> x \<Longrightarrow> x = y" by (cases x; cases y) simp_all
  show "x \<le> y \<or> y \<le> x" by (cases x; cases y) auto
qed

end

datatype Difficulty = Easy | Hard

text \<open>
  The mutable fields of \<^verbatim>\<open>class TicTacToeAI\<close>. The engine is a singleton, so a call
  receives the fields as the previous call left them.
\<close>

record TicTacToeAI =
  positionsEvaluated :: nat
  startTime :: real
  timeoutReached :: bool

text \<open>\<^verbatim>\<open>maxThinkingTime\<close> is never assigned after its initialiser.\<close>

definition maxThinkingTime :: real where
  "maxThinkingTime = 500"

text \<open>
  The readings of \<^verbatim>\<open>performance.now()\<close> during one call of \<^verbatim>\<open>getBestMove\<close>: the
  one that sets \<^verbatim>\<open>startTime\<close>, the one taken inside \<^verbatim>\<open>minimax\<close> when the node
  counter stands at \<open>n\<close> (the counter grows with every node, so each such reading has
  its own \<open>n\<close>), and the last one, for \<^verbatim>\<open>thinkingTime\<close>.
\<close>

record performance =
  now_start :: real
  now_node :: "nat \<Rightarrow> real"
  now_end :: real

text \<open>
  \<^verbatim>\<open>MinimaxResult\<close>, the \<^verbatim>\<open>metrics\<close> object and the two result objects. Field
  names that occur in several objects carry a suffix.
\<close>

record MinimaxResult =
  score :: number
  move :: "Move option"
  positionsEvaluated_r :: nat

record AIMetrics =
  positionsEvaluated_m :: nat
  thinkingTime :: int
  lastMoveScore :: number

record hard_move =
  hm_move :: "Move option"
  hm_score :: number

record best_move =
  bm_move :: "Move option"
  bm_metrics :: AIMetrics

text \<open>
  \<^verbatim>\<open>minimax\<close>. The two \<^verbatim>\<open>for\<close> loops over \<^verbatim>\<open>availableMoves\<close> are the functions
  \<open>minimax_max_loop\<close> and \<open>minimax_min_loop\<close>; their arguments after the remaining moves
  are the loop variables \<^verbatim>\<open>maxEval\<close>/\<^verbatim>\<open>minEval\<close>, \<^verbatim>\<open>bestMove\<close>, \<^verbatim>\<open>alpha\<close> and
  \<^verbatim>\<open>beta\<close>. The engine's fields are passed in and returned.
\<close>

function minimax ::
    "performance \<Rightarrow> TicTacToeAI \<Rightarrow> board \<Rightarrow> nat \<Rightarrow> bool \<Rightarrow> player \<Rightarrow> number \<Rightarrow> number \<Rightarrow> nat
     \<Rightarrow> error + (TicTacToeAI \<times> MinimaxResult)"
  and minimax_max_loop ::
    "performance \<Rightarrow> TicTacToeAI \<Rightarrow> board \<Rightarrow> nat \<Rightarrow> player \<Rightarrow> nat \<Rightarrow> Move list
     \<Rightarrow> number \<Rightarrow> Move option \<Rightarrow> number \<Rightarrow> number \<Rightarrow> error + (TicTacToeAI \<times> MinimaxResult)"
  and minimax_min_loop ::
    "performance \<Rightarrow> TicTacToeAI \<Rightarrow> board \<Rightarrow> nat \<Rightarrow> player \<Rightarrow> nat \<Rightarrow> Move list
     \<Rightarrow> number \<Rightarrow> Move option \<Rightarrow> number \<Rightarrow> number \<Rightarrow> error + (TicTacToeAI \<times> MinimaxResult)"
where
  "minimax perf this0 board depth isMaximizing aiPlayer alpha beta maxDepth =
     (let this = this0\<lparr>positionsEvaluated := positionsEvaluated this0 + 1\<rparr> in
      if positionsEvaluated this mod 100 = 0
         \<and> now_node perf (positionsEvaluated this) - startTime this > maxThinkingTime
      then Inr (this\<lparr>timeoutReached := True\<rparr>,
                \<lparr>score = Fin 0, move = None, positionsEvaluated_r = positionsEvaluated this\<rparr>)
      else if depth \<ge> maxDepth then
        (case evaluateBoard board aiPlayer of
           Inl e \<Rightarrow> Inl e
         | Inr s \<Rightarrow> Inr (this,
             \<lparr>score = Fin s, move = None, positionsEvaluated_r = positionsEvaluated this\<rparr>))
      else
        (case isGameOver board of
           Inl e \<Rightarrow> Inl e
         | Inr over \<Rightarrow>
            if over then
              (case evaluateBoard board aiPlayer of
                 Inl e \<Rightarrow> Inl e
               | Inr s \<Rightarrow>
                  (let adjustedScore = (if s > 0 then s - int depth else s + int depth) in
                   Inr (this, \<lparr>score = Fin adjustedScore, move = None,
                               positionsEvaluated_r = positionsEvaluated this\<rparr>)))
            else
              (let availableMoves = getAvailableMoves board in
               if length availableMoves = 0 then
                 Inr (this, \<lparr>score = Fin 0, move = None,
                             positionsEvaluated_r = positionsEvaluated this\<rparr>)
               else if isMaximizing then
                 minimax_max_loop perf this board depth aiPlayer maxDepth availableMoves
                   NegInf None alpha beta
               else
                 minimax_min_loop perf this board depth aiPlayer maxDepth availableMoves
                   PosInf None alpha beta)))"
| "minimax_max_loop perf this board depth aiPlayer maxDepth [] maxEval bestMove alpha beta =
     Inr (this, \<lparr>score = maxEval, move = bestMove,
                 positionsEvaluated_r = positionsEvaluated this\<rparr>)"
| "minimax_max_loop perf this board depth aiPlayer maxDepth (m # rest) maxEval bestMove alpha beta =
     (if timeoutReached this then
        Inr (this, \<lparr>score = maxEval, move = bestMove,
                    positionsEvaluated_r = positionsEvaluated this\<rparr>)
      else
        (case makeMove board (row m) (col m) aiPlayer of
           Inl e \<Rightarrow> Inl e
         | Inr newBoard \<Rightarrow>
            (case minimax perf this newBoard (depth + 1) False aiPlayer alpha beta maxDepth of
               Inl e \<Rightarrow> Inl e
             | Inr (this', eval) \<Rightarrow>
                (let maxEval' = (if score eval > maxEval then score eval else maxEval);
                     bestMove' = (if score eval > maxEval then Some m else bestMove);
                     alpha' = max alpha (score eval)
                 in if beta \<le> alpha' then
                      Inr (this', \<lparr>score = maxEval', move = bestMove',
                                   positionsEvaluated_r = positionsEvaluated this'\<rparr>)
                    else
                      minimax_max_loop perf this' board depth aiPlayer maxDepth rest
                        maxEval' bestMove' alpha' beta))))"
| "minimax_min_loop perf this board depth aiPlayer maxDepth [] minEval bestMove alpha beta =
     Inr (this, \<lparr>score = minEval, move = bestMove,
                 positionsEvaluated_r = positionsEvaluated this\<rparr>)"
| "minimax_min_loop perf this board depth aiPlayer maxDepth (m # rest) minEval bestMove alpha beta =
     (if timeoutReached this then
        Inr (this, \<lparr>score = minEval, move = bestMove,
                    positionsEvaluated_r = positionsEvaluated this\<rparr>)
      else
        (case makeMove board (row m) (col m) (getOpponent aiPlayer) of
           Inl e \<Rightarrow> Inl e
         | Inr newBoard \<Rightarrow>
            (case minimax perf this newBoard (depth + 1) True aiPlayer alpha beta maxDepth of
               Inl e \<Rightarrow> Inl e
             | Inr (this', eval) \<Rightarrow>
                (let minEval' = (if score eval < minEval then score eval else minEval);
                     bestMove' = (if score eval < minEval then Some m else bestMove);
                     beta' = min beta (score eval)
                 in if beta' \<le> alpha then
                      Inr (this', \<lparr>score = minEval', move = bestMove',
                                   positionsEvaluated_r = positionsEvaluated this'\<rparr>)
                    else
                      minimax_min_loop perf this' board depth aiPlayer maxDepth rest
                        minEval' bestMove' alpha beta'))))"
  by pat_completeness auto
termination
  by (relation "measures [
       (\<lambda>x. case x of
              Inl (perf, this, board, depth, isMaximizing, aiPlayer, alpha, beta, maxDepth) \<Rightarrow>
                if depth \<ge> maxDepth then 0 else 2 * (maxDepth - depth) + 1
            | Inr (Inl (perf, this, board, depth, aiPlayer, maxDepth, ms, rest)) \<Rightarrow>
                if depth \<ge> maxDepth then 1 else 2 * (maxDepth - depth)
            | Inr (Inr (perf, this, board, depth, aiPlayer, maxDepth, ms, rest)) \<Rightarrow>
                if depth \<ge> maxDepth then 1 else 2 * (maxDepth - depth)),
       (\<lambda>x. case x of
              Inl _ \<Rightarrow> 0
            | Inr (Inl (perf, this, board, depth, aiPlayer, maxDepth, ms, rest)) \<Rightarrow> length ms
            | Inr (Inr (perf, this, board, depth, aiPlayer, maxDepth, ms, rest)) \<Rightarrow> length ms)]")
     auto


text \<open>
  \<^verbatim>\<open>findStrategicMoves\<close>: the inner loop counts the follow-up moves that win, the
  outer loop collects the moves with at least two of them.
\<close>

fun count_winningOpportunities :: "board \<Rightarrow> player \<Rightarrow> Move list \<Rightarrow> nat \<Rightarrow> error + nat" where
  "count_winningOpportunities testBoard aiPlayer [] winningOpportunities =
     Inr winningOpportunities"
| "count_winningOpportunities testBoard aiPlayer (nextMove # rest) winningOpportunities =
     (case makeMove testBoard (row nextMove) (col nextMove) aiPlayer of
        Inl e \<Rightarrow> Inl e
      | Inr nextTestBoard \<Rightarrow>
         (case isGameOver nextTestBoard of
            Inl e \<Rightarrow> Inl e
          | Inr over \<Rightarrow>
             if over then
               (case evaluateBoard nextTestBoard aiPlayer of
                  Inl e \<Rightarrow> Inl e
                | Inr s \<Rightarrow>
                   count_winningOpportunities testBoard aiPlayer rest
                     (if s > 0 then winningOpportunities + 1 else winningOpportunities))
             else count_winningOpportunities testBoard aiPlayer rest winningOpportunities))"

fun findStrategicMoves_loop ::
    "board \<Rightarrow> player \<Rightarrow> Move list \<Rightarrow> Move list \<Rightarrow> error + Move list" where
  "findStrategicMoves_loop board aiPlayer [] strategicMoves = Inr strategicMoves"
| "findStrategicMoves_loop board aiPlayer (m # rest) strategicMoves =
     (case makeMove board (row m) (col m) aiPlayer of
        Inl e \<Rightarrow> Inl e
      | Inr testBoard \<Rightarrow>
         (case count_winningOpportunities testBoard aiPlayer (getAvailableMoves testBoard) 0 of
            Inl e \<Rightarrow> Inl e
          | Inr winningOpportunities \<Rightarrow>
             findStrategicMoves_loop board aiPlayer rest
               (if winningOpportunities \<ge> 2 then strategicMoves @ [m] else strategicMoves)))"

definition findStrategicMoves :: "board \<Rightarrow> player \<Rightarrow> Move list \<Rightarrow> error + Move list" where
  "findStrategicMoves board aiPlayer availableMoves =
     findStrategicMoves_loop board aiPlayer availableMoves []"

text \<open>
  \<^verbatim>\<open>getOptimizedMove\<close>. Its first two loops return from the function at the first
  move that wins for \<open>aiPlayer\<close>, or that wins for the opponent when the opponent
  plays it; \<open>None\<close> is a loop that ran to its end.
\<close>

fun winning_move_loop :: "board \<Rightarrow> player \<Rightarrow> Move list \<Rightarrow> error + Move option" where
  "winning_move_loop board aiPlayer [] = Inr None"
| "winning_move_loop board aiPlayer (m # rest) =
     (case makeMove board (row m) (col m) aiPlayer of
        Inl e \<Rightarrow> Inl e
      | Inr testBoard \<Rightarrow>
         (case isGameOver testBoard of
            Inl e \<Rightarrow> Inl e
          | Inr over \<Rightarrow>
             if over then
               (case evaluateBoard testBoard aiPlayer of
                  Inl e \<Rightarrow> Inl e
                | Inr s \<Rightarrow> if s > 0 then Inr (Some m) else winning_move_loop board aiPlayer rest)
             else winning_move_loop board aiPlayer rest))"

fun blocking_move_loop :: "board \<Rightarrow> player \<Rightarrow> player \<Rightarrow> Move list \<Rightarrow> error + Move option" where
  "blocking_move_loop board aiPlayer opponent [] = Inr None"
| "blocking_move_loop board aiPlayer opponent (m # rest) =
     (case makeMove board (row m) (col m) opponent of
        Inl e \<Rightarrow> Inl e
      | Inr testBoard \<Rightarrow>
         (case isGameOver testBoard of
            Inl e \<Rightarrow> Inl e
          | Inr over \<Rightarrow>
             if over then
               (case evaluateBoard testBoard aiPlayer of
                  Inl e \<Rightarrow> Inl e
                | Inr s \<Rightarrow>
                   if s < 0 then Inr (Some m) else blocking_move_loop board aiPlayer opponent rest)
             else blocking_move_loop board aiPlayer opponent rest))"

definition getOptimizedMove :: "(nat \<Rightarrow> real) \<Rightarrow> board \<Rightarrow> player \<Rightarrow> error + Move option" where
  "getOptimizedMove random board aiPlayer =
     (let boardSize = length board;
          availableMoves = getAvailableMoves board;
          opponent = getOpponent aiPlayer
      in
      if length availableMoves = 0 then Inr None
      else if length availableMoves = boardSize * boardSize then
        Inr (Some (getCenterPosition boardSize))
      else
        (case winning_move_loop board aiPlayer availableMoves of
           Inl e \<Rightarrow> Inl e
         | Inr (Some m) \<Rightarrow> Inr (Some m)
         | Inr None \<Rightarrow>
            (case blocking_move_loop board aiPlayer opponent availableMoves of
               Inl e \<Rightarrow> Inl e
             | Inr (Some m) \<Rightarrow> Inr (Some m)
             | Inr None \<Rightarrow>
                (case findStrategicMoves board aiPlayer availableMoves of
                   Inl e \<Rightarrow> Inl e
                 | Inr strategicMoves \<Rightarrow>
                    if length strategicMoves > 0 then
                      Inr (random_element strategicMoves (random 0))
                    else
                      (let center = getCenterPosition boardSize in
                       if isValidMove board (row center) (col center) then Inr (Some center)
                       else
                         (let corners = getCornerPositions boardSize;
                              availableCorners =
                                filter (\<lambda>pos. isValidMove board (row pos) (col pos)) corners
                          in
                          if length availableCorners > 0 then
                            Inr (random_element availableCorners (random 0))
                          else Inr (getRandomMove board (random 0))))))))"

text \<open>
  \<^verbatim>\<open>getEasyMove\<close>. \<open>random k\<close> is the \<open>k\<close>-th draw of \<^verbatim>\<open>Math.random()\<close> in the
  call.
\<close>

definition getEasyMove :: "(nat \<Rightarrow> real) \<Rightarrow> TicTacToeAI \<Rightarrow> board \<Rightarrow> TicTacToeAI \<times> Move option" where
  "getEasyMove random this0 board =
     (let this = this0\<lparr>positionsEvaluated := 1\<rparr>;
          boardSize = length board;
          availableMoves = getAvailableMoves board
      in
      if length availableMoves = 0 then (this, None)
      else if random 0 < 7 / 10 then (this, getRandomMove board (random 1))
      else
        (let centerPos = getCenterPosition boardSize in
         if isValidMove board (row centerPos) (col centerPos) then (this, Some centerPos)
         else
           (let cornerPositions = getCornerPositions boardSize;
                availableCorners =
                  filter (\<lambda>pos. isValidMove board (row pos) (col pos)) cornerPositions
            in
            if length availableCorners > 0 then
              (this, random_element availableCorners (random 1))
            else (this, getRandomMove board (random 1)))))"

text \<open>\<^verbatim>\<open>getHardMove\<close>: the depth cap by board size, then the search from depth 0.\<close>

definition getHardMove ::
    "performance \<Rightarrow> (nat \<Rightarrow> real) \<Rightarrow> TicTacToeAI \<Rightarrow> board \<Rightarrow> player
     \<Rightarrow> error + (TicTacToeAI \<times> hard_move)" where
  "getHardMove perf random this board aiPlayer =
     (let boardSize = length board;
          availableMoves = getAvailableMoves board;
          search = (\<lambda>maxDepth.
            case minimax perf this board 0 True aiPlayer NegInf PosInf maxDepth of
              Inl e \<Rightarrow> Inl e
            | Inr (this', result) \<Rightarrow>
                Inr (this', \<lparr>hm_move = move result, hm_score = score result\<rparr>))
      in
      if boardSize = 3 then search 9
      else if boardSize = 4 then search (if length availableMoves > 8 then 2 else 3)
      else if boardSize = 5 then search 2
      else
        (case getOptimizedMove random board aiPlayer of
           Inl e \<Rightarrow> Inl e
         | Inr m \<Rightarrow> Inr (this, \<lparr>hm_move = m, hm_score = Fin 0\<rparr>)))"

text \<open>
  \<^verbatim>\<open>getBestMove\<close>, the public entry: it resets the counters, picks the strategy and
  reports the metrics. The console output is left out.
\<close>

definition getBestMove ::
    "performance \<Rightarrow> (nat \<Rightarrow> real) \<Rightarrow> TicTacToeAI \<Rightarrow> board \<Rightarrow> player \<Rightarrow> Difficulty
     \<Rightarrow> error + (TicTacToeAI \<times> best_move)" where
  "getBestMove perf random this0 board aiPlayer difficulty =
     (let this = this0\<lparr>positionsEvaluated := 0, startTime := now_start perf,
                       timeoutReached := False\<rparr>;
          boardSize = length board;
          report = (\<lambda>this' m s.
            (let thinkingTime = now_end perf - startTime this' in
             Inr (this', \<lparr>bm_move = m,
                          bm_metrics = \<lparr>positionsEvaluated_m = positionsEvaluated this',
                                        thinkingTime = round thinkingTime,
                                        lastMoveScore = s\<rparr>\<rparr>)))
      in
      if difficulty = Easy then
        (case getEasyMove random this board of (this', m) \<Rightarrow> report this' m (Fin 0))
      else if boardSize > 3 then
        (case getOptimizedMove random board aiPlayer of
           Inl e \<Rightarrow> Inl e
         | Inr m \<Rightarrow> report this m (Fin 0))
      else
        (case getHardMove perf random this board aiPlayer of
           Inl e \<Rightarrow> Inl e
         | Inr (this', result) \<Rightarrow> report this' (hm_move result) (hm_score result)))"


section \<open>The search without clock, counters and exceptions\<close>

text \<open>
  On a well-formed board no read fails and every available move is valid, and as long
  as the time budget is not exceeded the counters do not influence the result. The
  following functions are the rules and the search of the source with these parts
  removed; the theorems below relate them to the functions above.
\<close>

definition winner_of :: "board \<Rightarrow> player option" where
  "winner_of board = (case checkWinner board of Inl e \<Rightarrow> None | Inr res \<Rightarrow> winner res)"

definition terminal :: "board \<Rightarrow> bool" where
  "terminal board = (winner_of board \<noteq> None \<or> isBoardFull board)"

definition evaluate :: "board \<Rightarrow> player \<Rightarrow> int" where
  "evaluate board p =
     (if winner_of board = Some p then 10
      else if winner_of board = Some (getOpponent p) then - 10 else 0)"

definition place :: "board \<Rightarrow> Move \<Rightarrow> player \<Rightarrow> board" where
  "place board m p =
     board[nat (row m) := (board ! nat (row m))[nat (col m) := Some p]]"

function alphabeta ::
    "board \<Rightarrow> nat \<Rightarrow> bool \<Rightarrow> player \<Rightarrow> number \<Rightarrow> number \<Rightarrow> nat \<Rightarrow> number \<times> Move option"
  and alphabeta_max ::
    "board \<Rightarrow> nat \<Rightarrow> player \<Rightarrow> nat \<Rightarrow> Move list \<Rightarrow> number \<Rightarrow> Move option \<Rightarrow> number \<Rightarrow> number
     \<Rightarrow> number \<times> Move option"
  and alphabeta_min ::
    "board \<Rightarrow> nat \<Rightarrow> player \<Rightarrow> nat \<Rightarrow> Move list \<Rightarrow> number \<Rightarrow> Move option \<Rightarrow> number \<Rightarrow> number
     \<Rightarrow> number \<times> Move option"
where
  "alphabeta board depth isMaximizing aiPlayer alpha beta maxDepth =
     (if depth \<ge> maxDepth then (Fin (evaluate board aiPlayer), None)
      else if terminal board then
        (let s = evaluate board aiPlayer in
         (Fin (if s > 0 then s - int depth else s + int depth), None))
      else if getAvailableMoves board = [] then (Fin 0, None)
      else if isMaximizing then
        alphabeta_max board depth aiPlayer maxDepth (getAvailableMoves board) NegInf None alpha beta
      else
        alphabeta_min board depth aiPlayer maxDepth (getAvailableMoves board) PosInf None alpha beta)"
| "alphabeta_max board depth aiPlayer maxDepth [] maxEval bestMove alpha beta =
     (maxEval, bestMove)"
| "alphabeta_max board depth aiPlayer maxDepth (m # rest) maxEval bestMove alpha beta =
     (let s = fst (alphabeta (place board m aiPlayer) (depth + 1) False aiPlayer alpha beta maxDepth);
          maxEval' = (if s > maxEval then s else maxEval);
          bestMove' = (if s > maxEval then Some m else bestMove);
          alpha' = max alpha s
      in if beta \<le> alpha' then (maxEval', bestMove')
         else alphabeta_max board depth aiPlayer maxDepth rest maxEval' bestMove' alpha' beta)"
| "alphabeta_min board depth aiPlayer maxDepth [] minEval bestMove alpha beta =
     (minEval, bestMove)"
| "alphabeta_min board depth aiPlayer maxDepth (m # rest) minEval bestMove alpha beta =
     (let s = fst (alphabeta (place board m (getOpponent aiPlayer)) (depth + 1) True aiPlayer
                     alpha beta maxDepth);
          minEval' = (if s < minEval then s else minEval);
          bestMove' = (if s < minEval then Some m else bestMove);
          beta' = min beta s
      in if beta' \<le> alpha then (minEval', bestMove')
         else alphabeta_min board depth aiPlayer maxDepth rest minEval' bestMove' alpha beta')"
  by pat_completeness auto
termination
  by (relation "measures [
       (\<lambda>x. case x of
              Inl (board, depth, isMaximizing, aiPlayer, alpha, beta, maxDepth) \<Rightarrow>
                if depth \<ge> maxDepth then 0 else 2 * (maxDepth - depth) + 1
            | Inr (Inl (board, depth, aiPlayer, maxDepth, ms, rest)) \<Rightarrow>
                if depth \<ge> maxDepth then 1 else 2 * (maxDepth - depth)
            | Inr (Inr (board, depth, aiPlayer, maxDepth, ms, rest)) \<Rightarrow>
                if depth \<ge> maxDepth then 1 else 2 * (maxDepth - depth)),
       (\<lambda>x. case x of
              Inl _ \<Rightarrow> 0
            | Inr (Inl (board, depth, aiPlayer, maxDepth, ms, rest)) \<Rightarrow> length ms
            | Inr (Inr (board, depth, aiPlayer, maxDepth, ms, rest)) \<Rightarrow> length ms)]")
     auto

text \<open>
  The value of a position by plain minimax, without pruning, under the scoring of the
  source: the reference against which the pruned search is measured.
\<close>

primrec maxs :: "number list \<Rightarrow> number" where
  "maxs [] = NegInf"
| "maxs (x # xs) = max x (maxs xs)"

primrec mins :: "number list \<Rightarrow> number" where
  "mins [] = PosInf"
| "mins (x # xs) = min x (mins xs)"

function minimax_value :: "board \<Rightarrow> nat \<Rightarrow> bool \<Rightarrow> player \<Rightarrow> nat \<Rightarrow> number" where
  "minimax_value board depth isMaximizing aiPlayer maxDepth =
     (if depth \<ge> maxDepth then Fin (evaluate board aiPlayer)
      else if terminal board then
        (let s = evaluate board aiPlayer in
         Fin (if s > 0 then s - int depth else s + int depth))
      else if getAvailableMoves board = [] then Fin 0
      else if isMaximizing then
        maxs (map (\<lambda>m. minimax_value (place board m aiPlayer) (depth + 1) False aiPlayer maxDepth)
               (getAvailableMoves board))
      else
        mins (map (\<lambda>m. minimax_value (place board m (getOpponent aiPlayer)) (depth + 1) True
                          aiPlayer maxDepth)
               (getAvailableMoves board)))"
  by pat_completeness auto
termination
  by (relation "measure (\<lambda>(board, depth, isMaximizing, aiPlayer, maxDepth). maxDepth - depth)")
     auto

text \<open>
  Whether the searcher \<open>aiPlayer\<close> can avoid defeat within \<open>n\<close> further plies, whatever
  the opponent plays.
\<close>

fun safe :: "nat \<Rightarrow> board \<Rightarrow> bool \<Rightarrow> player \<Rightarrow> bool"
  and safe_some :: "nat \<Rightarrow> board \<Rightarrow> player \<Rightarrow> Move list \<Rightarrow> bool"
  and safe_every :: "nat \<Rightarrow> board \<Rightarrow> player \<Rightarrow> Move list \<Rightarrow> bool"
where
  "safe 0 board aiToMove aiPlayer = (winner_of board \<noteq> Some (getOpponent aiPlayer))"
| "safe (Suc n) board aiToMove aiPlayer =
     (if terminal board then winner_of board \<noteq> Some (getOpponent aiPlayer)
      else if getAvailableMoves board = [] then True
      else if aiToMove then safe_some n board aiPlayer (getAvailableMoves board)
      else safe_every n board aiPlayer (getAvailableMoves board))"
| "safe_some n board aiPlayer [] = False"
| "safe_some n board aiPlayer (m # rest) =
     (if safe n (place board m aiPlayer) False aiPlayer then True
      else safe_some n board aiPlayer rest)"
| "safe_every n board aiPlayer [] = True"
| "safe_every n board aiPlayer (m # rest) =
     (if safe n (place board m (getOpponent aiPlayer)) True aiPlayer
      then safe_every n board aiPlayer rest else False)"

text \<open>
  A move wins at once for \<open>p\<close> when the board after \<open>p\<close> has played it reports \<open>p\<close> as
  the winner.
\<close>

definition immediate_win :: "board \<Rightarrow> Move \<Rightarrow> player \<Rightarrow> bool" where
  "immediate_win board m p =
     (case makeMove board (row m) (col m) p of
        Inl e \<Rightarrow> False
      | Inr testBoard \<Rightarrow>
          (case checkWinner testBoard of Inl e \<Rightarrow> False | Inr res \<Rightarrow> winner res = Some p))"

section \<open>Assumptions on the environment, and observations of a result\<close>

text \<open>
  A call stays within its time budget when no reading of the clock is later than
  \<^verbatim>\<open>maxThinkingTime\<close> after the start of the call, so that the abort never fires.
\<close>

definition within_budget :: "performance \<Rightarrow> bool" where
  "within_budget perf = (\<forall>n. now_node perf n - now_start perf \<le> maxThinkingTime)"

text \<open>A clock that stands still, a run in which every draw is \<open>u\<close>, a new engine.\<close>

definition steady_clock :: performance where
  "steady_clock = \<lparr>now_start = 0, now_node = (\<lambda>n. 0), now_end = 0\<rparr>"

definition fixed_random :: "real \<Rightarrow> nat \<Rightarrow> real" where
  "fixed_random u k = u"

definition new_engine :: TicTacToeAI where
  "new_engine = \<lparr>positionsEvaluated = 0, startTime = 0, timeoutReached = False\<rparr>"

text \<open>What a caller sees of a result: the move, the score and the node count.\<close>

definition minimax_score :: "error + (TicTacToeAI \<times> MinimaxResult) \<Rightarrow> number option" where
  "minimax_score r = (case r of Inl e \<Rightarrow> None | Inr (this, res) \<Rightarrow> Some (score res))"

definition chosen_move :: "error + (TicTacToeAI \<times> best_move) \<Rightarrow> Move option" where
  "chosen_move r = (case r of Inl e \<Rightarrow> None | Inr (this, res) \<Rightarrow> bm_move res)"

definition reported_score :: "error + (TicTacToeAI \<times> best_move) \<Rightarrow> number option" where
  "reported_score r =
     (case r of Inl e \<Rightarrow> None | Inr (this, res) \<Rightarrow> Some (lastMoveScore (bm_metrics res)))"

definition nodes_visited :: "error + (TicTacToeAI \<times> best_move) \<Rightarrow> nat option" where
  "nodes_visited r =
     (case r of Inl e \<Rightarrow> None | Inr (this, res) \<Rightarrow> Some (positionsEvaluated_m (bm_metrics res)))"

section \<open>A complete game against the hard mode\<close>

text \<open>
  The simulation of a game in which the engine chooses every move of \<open>aiPlayer\<close> in
  hard mode and \<open>opponent\<close> chooses the moves of the other mark, for at most \<open>n\<close>
  further plies; nine plies fill a board of size 3. As in the caller of the engine
  (\<^verbatim>\<open>useGameState.ts\<close>), a ply is played only while the game is not over, the engine's
  move is applied with \<^verbatim>\<open>makeMove\<close>, and an engine that returns no move ends the
  simulation. \<open>perfs k\<close> and \<open>randoms k\<close> are the clock and the random draws of the call
  made with \<open>k\<close> plies left; the opponent's choice may depend on \<open>k\<close> and on the board.
\<close>

fun play ::
    "nat \<Rightarrow> (nat \<Rightarrow> performance) \<Rightarrow> (nat \<Rightarrow> nat \<Rightarrow> real) \<Rightarrow> (nat \<Rightarrow> board \<Rightarrow> Move) \<Rightarrow> player
     \<Rightarrow> TicTacToeAI \<Rightarrow> board \<Rightarrow> bool \<Rightarrow> error + board" where
  "play 0 perfs randoms opponent aiPlayer this board aiToMove = Inr board"
| "play (Suc n) perfs randoms opponent aiPlayer this board aiToMove =
     (case isGameOver board of
        Inl e \<Rightarrow> Inl e
      | Inr over \<Rightarrow>
         if over then Inr board
         else if aiToMove then
           (case getBestMove (perfs n) (randoms n) this board aiPlayer Hard of
              Inl e \<Rightarrow> Inl e
            | Inr (this', result) \<Rightarrow>
               (case bm_move result of
                  None \<Rightarrow> Inr board
                | Some m \<Rightarrow>
                   (case makeMove board (row m) (col m) aiPlayer of
                      Inl e \<Rightarrow> Inl e
                    | Inr newBoard \<Rightarrow>
                        play n perfs randoms opponent aiPlayer this' newBoard False)))
         else
           (let m = opponent n board in
            case makeMove board (row m) (col m) (getOpponent aiPlayer) of
              Inl e \<Rightarrow> Inl e
            | Inr newBoard \<Rightarrow> play n perfs randoms opponent aiPlayer this newBoard True))"

text \<open>
  An opponent is legal when it answers every position of size 3 that is not over with
  a valid move. The opponent that takes the first available cell is one.
\<close>

definition legal_opponent :: "(nat \<Rightarrow> board \<Rightarrow> Move) \<Rightarrow> bool" where
  "legal_opponent opponent =
     (\<forall>n board. wf_board board \<and> length board = 3 \<and> isGameOver board = Inr False
        \<longrightarrow> isValidMove board (row (opponent n board)) (col (opponent n board)))"

definition first_free_opponent :: "nat \<Rightarrow> board \<Rightarrow> Move" where
  "first_free_opponent n board =
     (case getAvailableMoves board of [] \<Rightarrow> \<lparr>row = 0, col = 0\<rparr> | m # rest \<Rightarrow> m)"

text \<open>
  The hard mode itself as the opponent of \<open>aiPlayer\<close>: it plays the other mark with the
  move that \<^verbatim>\<open>getBestMove\<close> returns for it.
\<close>

definition hard_opponent :: "player \<Rightarrow> nat \<Rightarrow> board \<Rightarrow> Move" where
  "hard_opponent aiPlayer n board =
     (case chosen_move (getBestMove steady_clock (fixed_random 0) new_engine board
                          (getOpponent aiPlayer) Hard) of
        None \<Rightarrow> \<lparr>row = 0, col = 0\<rparr>
      | Some m \<Rightarrow> m)"

definition steady_clocks :: "nat \<Rightarrow> performance" where
  "steady_clocks k = steady_clock"

definition fixed_randoms :: "real \<Rightarrow> nat \<Rightarrow> nat \<Rightarrow> real" where
  "fixed_randoms u k j = u"

text \<open>
  A clock that reads 501 ms at every node, so that every search is over its budget, and
  the opponent that takes the first valid cell of a list of preferences, or the first
  available cell when none of them is valid.
\<close>

definition slow_clock :: performance where
  "slow_clock = \<lparr>now_start = 0, now_node = (\<lambda>n. 501), now_end = 501\<rparr>"

definition slow_clocks :: "nat \<Rightarrow> performance" where
  "slow_clocks k = slow_clock"

definition preferring_opponent :: "Move list \<Rightarrow> nat \<Rightarrow> board \<Rightarrow> Move" where
  "preferring_opponent prefs n board =
     (case find (\<lambda>m. isValidMove board (row m) (col m)) prefs of
        None \<Rightarrow> first_free_opponent n board
      | Some m \<Rightarrow> m)"

section \<open>Explicit forms on boards of size 3\<close>

text \<open>
  Auxiliary functions in which the rules and the two loops are written out for a board
  given by its nine cells. They only serve to evaluate the searches on concrete
  positions; the theorems below show that they agree with the functions above.
\<close>

definition line3 :: "cell \<Rightarrow> cell \<Rightarrow> cell \<Rightarrow> player option \<Rightarrow> player option" where
  "line3 x y z rest =
     (case x of None \<Rightarrow> rest | Some p \<Rightarrow> if y = Some p \<and> z = Some p then Some p else rest)"

definition winner3 ::
    "cell \<Rightarrow> cell \<Rightarrow> cell \<Rightarrow> cell \<Rightarrow> cell \<Rightarrow> cell \<Rightarrow> cell \<Rightarrow> cell \<Rightarrow> cell \<Rightarrow> player option" where
  "winner3 a b c d e f g h i =
     line3 a b c (line3 d e f (line3 g h i (line3 a d g (line3 b e h (line3 c f i
       (line3 a e i (line3 c e g None)))))))"

definition free_cell :: "cell \<Rightarrow> Move \<Rightarrow> Move list \<Rightarrow> Move list" where
  "free_cell x m rest = (if x = None then m # rest else rest)"

definition score_for :: "player option \<Rightarrow> player \<Rightarrow> int" where
  "score_for w p = (if w = Some p then 10 else if w = Some (getOpponent p) then - 10 else 0)"

definition adjusted :: "int \<Rightarrow> nat \<Rightarrow> int" where
  "adjusted s depth = (if s > 0 then s - int depth else s + int depth)"

definition alphabeta_moves ::
    "Move list \<Rightarrow> board \<Rightarrow> nat \<Rightarrow> bool \<Rightarrow> player \<Rightarrow> number \<Rightarrow> number \<Rightarrow> nat
     \<Rightarrow> number \<times> Move option" where
  "alphabeta_moves ms board depth isMaximizing aiPlayer alpha beta maxDepth =
     (if ms = [] then (Fin 0, None)
      else if isMaximizing then
        alphabeta_max board depth aiPlayer maxDepth ms NegInf None alpha beta
      else alphabeta_min board depth aiPlayer maxDepth ms PosInf None alpha beta)"

definition alphabeta_node ::
    "player option \<Rightarrow> board \<Rightarrow> nat \<Rightarrow> bool \<Rightarrow> player \<Rightarrow> number \<Rightarrow> number \<Rightarrow> nat
     \<Rightarrow> number \<times> Move option" where
  "alphabeta_node w board depth isMaximizing aiPlayer alpha beta maxDepth =
     (if depth \<ge> maxDepth then (Fin (score_for w aiPlayer), None)
      else if w \<noteq> None \<or> isBoardFull board then
        (Fin (adjusted (score_for w aiPlayer) depth), None)
      else alphabeta_moves (getAvailableMoves board) board depth isMaximizing aiPlayer
             alpha beta maxDepth)"

definition alphabeta_max_step ::
    "number \<Rightarrow> board \<Rightarrow> nat \<Rightarrow> player \<Rightarrow> nat \<Rightarrow> Move \<Rightarrow> Move list \<Rightarrow> number \<Rightarrow> Move option
     \<Rightarrow> number \<Rightarrow> number \<Rightarrow> number \<times> Move option" where
  "alphabeta_max_step s board depth aiPlayer maxDepth m rest maxEval bestMove alpha beta =
     (if s > maxEval then
        (if beta \<le> max alpha s then (s, Some m)
         else alphabeta_max board depth aiPlayer maxDepth rest s (Some m) (max alpha s) beta)
      else
        (if beta \<le> max alpha s then (maxEval, bestMove)
         else alphabeta_max board depth aiPlayer maxDepth rest maxEval bestMove (max alpha s) beta))"

definition alphabeta_min_step ::
    "number \<Rightarrow> board \<Rightarrow> nat \<Rightarrow> player \<Rightarrow> nat \<Rightarrow> Move \<Rightarrow> Move list \<Rightarrow> number \<Rightarrow> Move option
     \<Rightarrow> number \<Rightarrow> number \<Rightarrow> number \<times> Move option" where
  "alphabeta_min_step s board depth aiPlayer maxDepth m rest minEval bestMove alpha beta =
     (if s < minEval then
        (if min beta s \<le> alpha then (s, Some m)
         else alphabeta_min board depth aiPlayer maxDepth rest s (Some m) alpha (min beta s))
      else
        (if min beta s \<le> alpha then (minEval, bestMove)
         else alphabeta_min board depth aiPlayer maxDepth rest minEval bestMove alpha (min beta s)))"

definition safe_node :: "player option \<Rightarrow> nat \<Rightarrow> board \<Rightarrow> bool \<Rightarrow> player \<Rightarrow> bool" where
  "safe_node w n board aiToMove aiPlayer =
     (if w \<noteq> None \<or> isBoardFull board then w \<noteq> Some (getOpponent aiPlayer)
      else if aiToMove then safe_some n board aiPlayer (getAvailableMoves board)
      else safe_every n board aiPlayer (getAvailableMoves board))"
section \<open>Properties of the rules\<close>

subsection \<open>Line generation\<close>

lemma gwc_length: "length (generateWinningCombinations n) = 2 * n + 2"
  by (simp add: generateWinningCombinations_def)

lemma gwc_nth:
  "i < 2 * n + 2 \<Longrightarrow> generateWinningCombinations n ! i =
     (if i < n then map (\<lambda>c. (i, c)) [0..<n]
      else if i < 2 * n then map (\<lambda>r. (r, i - n)) [0..<n]
      else if i = 2 * n then map (\<lambda>k. (k, k)) [0..<n]
      else map (\<lambda>k. (k, n - 1 - k)) [0..<n])"
  by (auto simp add: generateWinningCombinations_def nth_append)

lemma gwc_sig:
  assumes "i < 2 * n + 2" "2 \<le> n"
  shows "generateWinningCombinations n ! i ! 0 =
           (if i < n then (i, 0) else if i < 2 * n then (0, i - n)
            else if i = 2 * n then (0, 0) else (0, n - 1))"
    and "generateWinningCombinations n ! i ! Suc 0 =
           (if i < n then (i, Suc 0) else if i < 2 * n then (Suc 0, i - n)
            else if i = 2 * n then (Suc 0, Suc 0) else (Suc 0, n - 1 - Suc 0))"
  using assms by (simp_all add: gwc_nth)

lemma gwc_distinct: 
  assumes "2 \<le> n" shows "distinct (generateWinningCombinations n)"
proof -
  have "generateWinningCombinations n ! i \<noteq> generateWinningCombinations n ! j"
    if ij: "i < 2 * n + 2" "j < 2 * n + 2" "i \<noteq> j" for i j
  proof
    assume eq: "generateWinningCombinations n ! i = generateWinningCombinations n ! j"
    have "generateWinningCombinations n ! i ! 0 = generateWinningCombinations n ! j ! 0"
         "generateWinningCombinations n ! i ! Suc 0 = generateWinningCombinations n ! j ! Suc 0"
      using eq by simp_all
    then show False
      unfolding gwc_sig[OF ij(1) assms] gwc_sig[OF ij(2) assms]
      using ij assms
      by (auto split: if_splits)
  qed
  then show ?thesis
    by (simp add: distinct_conv_nth gwc_length)
qed

lemma gwc_lines:
  assumes "l \<in> set (generateWinningCombinations n)"
  shows "length l = n \<and> (\<forall>(r, c) \<in> set l. r < n \<and> c < n)"
  using assms by (auto simp: generateWinningCombinations_def)

text \<open>
  Claim C7. For every size \<open>N\<close> from 3 to 10, \<^verbatim>\<open>generateWinningCombinations(N)\<close>
  yields exactly \<open>2N + 2\<close> lines: the \<open>N\<close> rows, then the \<open>N\<close> columns, then the main
  diagonal, then the anti-diagonal; each line has length \<open>N\<close>, every coordinate is
  below \<open>N\<close>, and no two lines are equal.
\<close>

theorem generateLines_count_shape:
  assumes "3 \<le> N" and "N \<le> 10"
  shows "length (generateWinningCombinations N) = 2 * N + 2
       \<and> (\<forall>i<N. generateWinningCombinations N ! i = map (\<lambda>c. (i, c)) [0..<N])
       \<and> (\<forall>i<N. generateWinningCombinations N ! (N + i) = map (\<lambda>r. (r, i)) [0..<N])
       \<and> generateWinningCombinations N ! (2 * N) = map (\<lambda>i. (i, i)) [0..<N]
       \<and> generateWinningCombinations N ! (2 * N + 1) = map (\<lambda>i. (i, N - 1 - i)) [0..<N]
       \<and> (\<forall>l \<in> set (generateWinningCombinations N).
             length l = N \<and> (\<forall>(r, c) \<in> set l. r < N \<and> c < N))
       \<and> distinct (generateWinningCombinations N)"
proof -
  have "2 \<le> N" using assms by simp
  then have "distinct (generateWinningCombinations N)" by (rule gwc_distinct)
  moreover have "\<forall>l \<in> set (generateWinningCombinations N).
             length l = N \<and> (\<forall>(r, c) \<in> set l. r < N \<and> c < N)"
    using gwc_lines by blast
  moreover have "\<forall>i<N. generateWinningCombinations N ! i = map (\<lambda>c. (i, c)) [0..<N]"
    by (simp add: gwc_nth)
  moreover have "\<forall>i<N. generateWinningCombinations N ! (N + i) = map (\<lambda>r. (r, i)) [0..<N]"
    by (simp add: gwc_nth)
  moreover have "generateWinningCombinations N ! (2 * N) = map (\<lambda>i. (i, i)) [0..<N]"
    by (simp add: gwc_nth)
  moreover have "generateWinningCombinations N ! (2 * N + 1) = map (\<lambda>i. (i, N - 1 - i)) [0..<N]"
    by (simp add: gwc_nth)
  ultimately show ?thesis by (simp add: gwc_length)
qed

theorem generateLines_count_shape_witness:
  "length (generateWinningCombinations 3) = 8
   \<and> generateWinningCombinations 3 ! 7 = [(0, 2), (1, 1), (2, 0)]
   \<and> distinct (generateWinningCombinations 3)"
  using generateLines_count_shape [of 3] by (simp add: upt_rec)

subsection \<open>Applying a move\<close>

lemma makeMove_valid:
  assumes "isValidMove board r c"
  shows "makeMove board r c p = Inr (board[nat r := (board ! nat r)[nat c := Some p]])"
  using assms by (simp add: makeMove_def cloneBoard_def)

lemma cell_at_update:
  "cell_at (board[i := (board ! i)[j := v]]) i' j' =
     (if i' = i \<and> j' = j \<and> i < length board \<and> j < length (board ! i) then Some v
      else cell_at board i' j')"
proof (cases "i' = i")
  case True
  then show ?thesis
    by (cases "i < length board"; cases "j' = j")
       (auto simp: cell_at_def nth_list_update)
next
  case False
  then show ?thesis by (auto simp: cell_at_def nth_list_update)
qed

lemma wf_cell_at:
  assumes "wf_board board" "r < length board" "c < length board"
  shows "cell_at board r c = Some (board ! r ! c)"
  using assms by (simp add: wf_board_def cell_at_def list_all_length)

text \<open>
  Claim C6. \<^verbatim>\<open>makeMove\<close> fails, with the invalid-move error and no other, exactly
  when the move is not legal, that is when a coordinate is outside \<open>[0, size)\<close> or the
  cell does not hold \<^verbatim>\<open>null\<close>; a legal move returns a board that differs from the
  given one, has the mark in that cell and every other cell as before.
\<close>

theorem applyMove_illegal_iff:
  "(makeMove board r c p = Inl InvalidMove \<longleftrightarrow> \<not> isValidMove board r c)
   \<and> (\<forall>e. makeMove board r c p = Inl e \<longrightarrow> e = InvalidMove)
   \<and> (isValidMove board r c \<longleftrightarrow>
        0 \<le> r \<and> r < int (length board) \<and> 0 \<le> c \<and> c < int (length board)
        \<and> cell_at board (nat r) (nat c) = Some None)
   \<and> (isValidMove board r c \<longrightarrow>
        (\<exists>newBoard. makeMove board r c p = Inr newBoard
           \<and> newBoard \<noteq> board
           \<and> length newBoard = length board
           \<and> cell_at newBoard (nat r) (nat c) = Some (Some p)
           \<and> (\<forall>i j. (i, j) \<noteq> (nat r, nat c) \<longrightarrow> cell_at newBoard i j = cell_at board i j)))
   \<and> (wf_board board \<longrightarrow>
        (makeMove board r c p = Inl InvalidMove \<longleftrightarrow>
           r < 0 \<or> r \<ge> int (length board) \<or> c < 0 \<or> c \<ge> int (length board)
           \<or> (\<exists>q. board ! nat r ! nat c = Some q)))"
proof (intro conjI allI impI)
  assume wf: "wf_board board"
  have "cell_at board (nat r) (nat c) = Some (board ! nat r ! nat c)"
    if "0 \<le> r" "r < int (length board)" "0 \<le> c" "c < int (length board)"
  proof (rule wf_cell_at[OF wf])
    show "nat r < length board" using that by linarith
    show "nat c < length board" using that by linarith
  qed
  then show "makeMove board r c p = Inl InvalidMove \<longleftrightarrow>
           r < 0 \<or> r \<ge> int (length board) \<or> c < 0 \<or> c \<ge> int (length board)
           \<or> (\<exists>q. board ! nat r ! nat c = Some q)"
    by (auto simp: makeMove_def isValidMove_def Let_def)
next
  show "makeMove board r c p = Inl InvalidMove \<longleftrightarrow> \<not> isValidMove board r c"
    by (simp add: makeMove_def Let_def)
  show "e = InvalidMove" if "makeMove board r c p = Inl e" for e
    using that by (simp add: makeMove_def Let_def split: if_splits)
  show "isValidMove board r c \<longleftrightarrow>
        0 \<le> r \<and> r < int (length board) \<and> 0 \<le> c \<and> c < int (length board)
        \<and> cell_at board (nat r) (nat c) = Some None"
    by (simp add: isValidMove_def Let_def)
  assume v: "isValidMove board r c"
  let ?nb = "board[nat r := (board ! nat r)[nat c := Some p]]"
  have in_range: "nat r < length board" "nat c < length (board ! nat r)"
    and empty: "board ! nat r ! nat c = None"
    using v by (auto simp: isValidMove_def cell_at_def Let_def split: if_splits)
  have "cell_at ?nb (nat r) (nat c) = Some (Some p)"
    using in_range by (simp add: cell_at_update)
  moreover have "?nb \<noteq> board"
  proof
    assume "?nb = board"
    then have "?nb ! nat r ! nat c = board ! nat r ! nat c" by simp
    then show False using in_range empty by simp
  qed
  moreover have "\<forall>i j. (i, j) \<noteq> (nat r, nat c) \<longrightarrow> cell_at ?nb i j = cell_at board i j"
    by (auto simp: cell_at_update)
  ultimately show "\<exists>newBoard. makeMove board r c p = Inr newBoard
           \<and> newBoard \<noteq> board
           \<and> length newBoard = length board
           \<and> cell_at newBoard (nat r) (nat c) = Some (Some p)
           \<and> (\<forall>i j. (i, j) \<noteq> (nat r, nat c) \<longrightarrow> cell_at newBoard i j = cell_at board i j)"
    using makeMove_valid[OF v] by simp
qed

theorem applyMove_illegal_iff_witness:
  "isValidMove (createEmptyBoard 3) 1 1
   \<and> makeMove (createEmptyBoard 3) 1 1 PLAYER_X
       = Inr [[None, None, None], [None, Some PLAYER_X, None], [None, None, None]]
   \<and> wf_board [[None, None, None], [None, Some PLAYER_X, None], [None, None, None]]
   \<and> makeMove [[None, None, None], [None, Some PLAYER_X, None], [None, None, None]]
         1 1 PLAYER_O = Inl InvalidMove
   \<and> makeMove (createEmptyBoard 3) 3 0 PLAYER_X = Inl InvalidMove"
  using applyMove_illegal_iff [of "createEmptyBoard 3" 1 1 PLAYER_X]
    applyMove_illegal_iff
      [of "[[None, None, None], [None, Some PLAYER_X, None], [None, None, None]]" 1 1 PLAYER_O]
    applyMove_illegal_iff [of "createEmptyBoard 3" 3 0 PLAYER_X]
  by (simp add: isValidMove_def createEmptyBoard_def cell_at_def wf_board_def makeMove_def
        cloneBoard_def numeral_3_eq_3)

subsection \<open>Winner detection\<close>

lemma gwc_nonempty:
  assumes "0 < n" "l \<in> set (generateWinningCombinations n)"
  shows "l \<noteq> []"
  using assms by (auto simp: generateWinningCombinations_def)

lemma line_complete_unique:
  assumes "line_complete board l p" "line_complete board l q" "l \<noteq> []"
  shows "p = q"
  using assms by (cases l) (auto simp: line_complete_def)

lemma checkWinner_loop_none:
  assumes "\<forall>l \<in> set ls. l \<noteq> []" "\<forall>l \<in> set ls. \<forall>p. \<not> line_complete board l p"
  shows "checkWinner_loop board ls = Inr \<lparr>winner = None, winningLine = None\<rparr>"
  using assms
proof (induction ls)
  case Nil
  then show ?case by simp
next
  case (Cons l ls)
  then obtain r0 c0 l' where l: "l = (r0, c0) # l'" by (cases l) auto
  have "\<not> list_all (\<lambda>(r, c). cell_at board r c = Some (Some f)) l" for f
    using Cons.prems(2) by (simp add: line_complete_def)
  then show ?case
    using Cons l by (simp split: option.splits)
qed

lemma checkWinner_loop_first:
  assumes "\<forall>l \<in> set ls. l \<noteq> []" "i < length ls" "line_complete board (ls ! i) p"
    "\<forall>j<i. \<forall>q. \<not> line_complete board (ls ! j) q"
  shows "checkWinner_loop board ls = Inr \<lparr>winner = Some p, winningLine = Some (ls ! i)\<rparr>"
  using assms
proof (induction ls arbitrary: i)
  case Nil
  then show ?case by simp
next
  case (Cons l ls)
  obtain r0 c0 l' where l: "l = (r0, c0) # l'" using Cons.prems(1) by (cases l) auto
  show ?case
  proof (cases i)
    case 0
    then have c: "list_all (\<lambda>(r, c). cell_at board r c = Some (Some p)) l"
      using Cons.prems(3) by (simp add: line_complete_def)
    then have "cell_at board r0 c0 = Some (Some p)" using l by simp
    then show ?thesis using c l 0 by simp
  next
    case (Suc k)
    have "\<not> list_all (\<lambda>(r, c). cell_at board r c = Some (Some f)) l" for f
      using Cons.prems(4)[rule_format, of 0 f] Suc by (simp add: line_complete_def)
    moreover have "checkWinner_loop board ls = Inr \<lparr>winner = Some p, winningLine = Some (ls ! k)\<rparr>"
    proof (rule Cons.IH)
      show "\<forall>l\<in>set ls. l \<noteq> []" using Cons.prems(1) by simp
      show "k < length ls" using Cons.prems(2) Suc by simp
      show "line_complete board (ls ! k) p" using Cons.prems(3) Suc by simp
      show "\<forall>j<k. \<forall>q. \<not> line_complete board (ls ! j) q"
        using Cons.prems(4) Suc by (metis Suc_less_eq nth_Cons_Suc)
    qed
    ultimately show ?thesis using l Suc by (simp split: option.splits)
  qed
qed

lemma checkWinner_first:
  assumes "0 < length board" "i < 2 * length board + 2"
    "line_complete board (generateWinningCombinations (length board) ! i) p"
    "\<forall>j<i. \<forall>q. \<not> line_complete board (generateWinningCombinations (length board) ! j) q"
  shows "checkWinner board = Inr \<lparr>winner = Some p,
           winningLine = Some (generateWinningCombinations (length board) ! i)\<rparr>"
  unfolding checkWinner_def
  using assms gwc_nonempty[OF assms(1)]
  by (intro checkWinner_loop_first) (auto simp: generateWinningCombinations_def)

lemma checkWinner_none:
  assumes "0 < length board"
    "\<forall>l \<in> set (generateWinningCombinations (length board)). \<forall>p. \<not> line_complete board l p"
  shows "checkWinner board = Inr \<lparr>winner = None, winningLine = None\<rparr>"
  unfolding checkWinner_def
  using assms gwc_nonempty[OF assms(1)]
  by (intro checkWinner_loop_none) auto

lemma checkWinner_cases:
  assumes "0 < length board"
  obtains
    (none) "\<forall>l \<in> set (generateWinningCombinations (length board)). \<forall>p. \<not> line_complete board l p"
       "checkWinner board = Inr \<lparr>winner = None, winningLine = None\<rparr>"
  | (first) i p where "i < 2 * length board + 2"
       "line_complete board (generateWinningCombinations (length board) ! i) p"
       "\<forall>j<i. \<forall>q. \<not> line_complete board (generateWinningCombinations (length board) ! j) q"
       "checkWinner board = Inr \<lparr>winner = Some p,
           winningLine = Some (generateWinningCombinations (length board) ! i)\<rparr>"
proof -
  let ?L = "generateWinningCombinations (length board)"
  let ?C = "\<lambda>i. i < length ?L \<and> (\<exists>p. line_complete board (?L ! i) p)"
  show thesis
  proof (cases "\<exists>i. ?C i")
    case False
    then have "\<forall>l \<in> set ?L. \<forall>p. \<not> line_complete board l p"
      by (metis in_set_conv_nth)
    then show thesis using none checkWinner_none[OF assms] by blast
  next
    case True
    define i where "i = (LEAST i. ?C i)"
    have Ci: "?C i" unfolding i_def using True by (rule LeastI_ex)
    then obtain p where p: "line_complete board (?L ! i) p" by blast
    have less: "\<forall>j<i. \<forall>q. \<not> line_complete board (?L ! j) q"
    proof (intro allI impI)
      fix j q assume "j < i"
      then have "\<not> ?C j" unfolding i_def by (rule not_less_Least)
      moreover have "j < length ?L" using \<open>j < i\<close> Ci by simp
      ultimately show "\<not> line_complete board (?L ! j) q" by blast
    qed
    have il: "i < 2 * length board + 2" using Ci by (simp add: generateWinningCombinations_def)
    show thesis using first[OF il p less] checkWinner_first[OF assms il p less] by blast
  qed
qed


lemma createEmptyBoard_no_line:
  assumes "l \<in> set (generateWinningCombinations n)" "0 < n"
  shows "\<not> line_complete (createEmptyBoard n) l p"
proof -
  obtain r c l' where l: "l = (r, c) # l'"
    using gwc_nonempty[OF assms(2,1)] by (cases l) auto
  have "r < n \<and> c < n" using gwc_lines[OF assms(1)] l by simp
  then have "cell_at (createEmptyBoard n) r c = Some None"
    by (simp add: cell_at_def createEmptyBoard_def)
  then show ?thesis using l by (simp add: line_complete_def)
qed

text \<open>
  Claim C5. On a board of size at least 1, \<^verbatim>\<open>checkWinner\<close> reports a winner exactly
  when some line is complete for a mark; the mark and the line it returns are those of
  the first complete line in generation order; a board whose only complete line is \<open>l\<close>
  yields the mark of \<open>l\<close> together with \<open>l\<close>; the empty board has no winner.
\<close>

theorem checkWinner_first_complete_line:
  assumes "0 < length board"
  shows "\<exists>res. checkWinner board = Inr res
     \<and> (winner res \<noteq> None \<longleftrightarrow>
          (\<exists>l \<in> set (generateWinningCombinations (length board)). \<exists>p. line_complete board l p))
     \<and> (\<forall>i p. i < length (generateWinningCombinations (length board))
            \<and> line_complete board (generateWinningCombinations (length board) ! i) p
            \<and> (\<forall>j<i. \<forall>q. \<not> line_complete board (generateWinningCombinations (length board) ! j) q)
          \<longrightarrow> winner res = Some p
              \<and> winningLine res = Some (generateWinningCombinations (length board) ! i))
     \<and> (\<forall>l p. l \<in> set (generateWinningCombinations (length board))
            \<and> line_complete board l p
            \<and> (\<forall>l' \<in> set (generateWinningCombinations (length board)).
                  l' \<noteq> l \<longrightarrow> (\<forall>q. \<not> line_complete board l' q))
          \<longrightarrow> winner res = Some p \<and> winningLine res = Some l)
     \<and> (winner res = None \<longrightarrow> winningLine res = None)
     \<and> checkWinner (createEmptyBoard (length board)) = Inr \<lparr>winner = None, winningLine = None\<rparr>"
proof -
  let ?n = "length board"
  let ?L = "generateWinningCombinations ?n"
  have len: "length ?L = 2 * ?n + 2" by (simp add: generateWinningCombinations_def)
  have empty: "checkWinner (createEmptyBoard ?n) = Inr \<lparr>winner = None, winningLine = None\<rparr>"
  proof (rule checkWinner_none)
    show "0 < length (createEmptyBoard ?n)" using assms by (simp add: createEmptyBoard_def)
    show "\<forall>l\<in>set (generateWinningCombinations (length (createEmptyBoard ?n))).
            \<forall>p. \<not> line_complete (createEmptyBoard ?n) l p"
      using createEmptyBoard_no_line assms by (simp add: createEmptyBoard_def)
  qed
  show ?thesis
  proof (rule checkWinner_cases[OF assms])
    assume "\<forall>l \<in> set ?L. \<forall>p. \<not> line_complete board l p"
      and "checkWinner board = Inr \<lparr>winner = None, winningLine = None\<rparr>"
    then show ?thesis using empty by (auto dest: nth_mem)
  next
    fix i0 p0
    assume first: "i0 < 2 * length board + 2"
       "line_complete board (?L ! i0) p0"
       "\<forall>j<i0. \<forall>q. \<not> line_complete board (?L ! j) q"
       "checkWinner board = Inr \<lparr>winner = Some p0, winningLine = Some (?L ! i0)\<rparr>"
    have mem: "?L ! i0 \<in> set ?L" using first(1) len by simp
    have ne: "?L ! i0 \<noteq> []" using gwc_nonempty[OF assms mem] .
    have a: "winner res = Some p \<and> winningLine res = Some (?L ! i)"
      if "res = \<lparr>winner = Some p0, winningLine = Some (?L ! i0)\<rparr>"
        "i < length ?L" "line_complete board (?L ! i) p"
        "\<forall>j<i. \<forall>q. \<not> line_complete board (?L ! j) q" for res i p
    proof -
      have "\<not> i < i0" using first(3) that(3) by blast
      moreover have "\<not> i0 < i" using that(4) first(2) by blast
      ultimately have "i = i0" by simp
      moreover have "p = p0"
        using line_complete_unique[OF that(3) _ ] first(2) ne \<open>i = i0\<close> by blast
      ultimately show ?thesis using that(1) by simp
    qed
    have b: "winner res = Some p \<and> winningLine res = Some l"
      if "res = \<lparr>winner = Some p0, winningLine = Some (?L ! i0)\<rparr>"
        "l \<in> set ?L" "line_complete board l p"
        "\<forall>l' \<in> set ?L. l' \<noteq> l \<longrightarrow> (\<forall>q. \<not> line_complete board l' q)" for res l p
    proof -
      have "?L ! i0 = l" using that(4) mem first(2) by blast
      moreover have "p = p0"
        using line_complete_unique[OF that(3)] first(2) ne \<open>?L ! i0 = l\<close> by blast
      ultimately show ?thesis using that(1) by simp
    qed
    show ?thesis
      apply (rule exI[of _ "\<lparr>winner = Some p0, winningLine = Some (?L ! i0)\<rparr>"])
      apply (intro conjI)
           apply (rule first(4))
      using first(2) mem apply auto[1]
      using a apply blast
      using b apply blast
       apply simp
      apply (rule empty)
      done
  qed
qed

theorem checkWinner_first_complete_line_witness:
  "checkWinner [[Some PLAYER_X, Some PLAYER_X, Some PLAYER_X],
                [Some PLAYER_O, Some PLAYER_O, None],
                [None, None, None]]
     = Inr \<lparr>winner = Some PLAYER_X, winningLine = Some [(0, 0), (0, 1), (0, 2)]\<rparr>
   \<and> checkWinner (createEmptyBoard 3) = Inr \<lparr>winner = None, winningLine = None\<rparr>"
  using checkWinner_first_complete_line
    [of "[[Some PLAYER_X, Some PLAYER_X, Some PLAYER_X],
          [Some PLAYER_O, Some PLAYER_O, None], [None, None, None]]"]
  by (simp add: checkWinner_def generateWinningCombinations_def upt_rec cell_at_def
        createEmptyBoard_def numeral_3_eq_3)
section \<open>Scores of the leaves of the search\<close>

declare minimax.simps [simp del] alphabeta.simps [simp del] minimax_value.simps [simp del]

lemma checkWinner_total:
  assumes "0 < length board"
  shows "checkWinner board = Inr \<lparr>winner = winner_of board, winningLine = winningLine (projr (checkWinner board))\<rparr>"
  by (rule checkWinner_cases[OF assms]) (simp_all add: winner_of_def)

lemma checkWinner_Inr:
  assumes "0 < length board"
  obtains res where "checkWinner board = Inr res" "winner res = winner_of board"
  by (rule checkWinner_cases[OF assms]) (simp_all add: winner_of_def)

lemma evaluateBoard_evaluate:
  assumes "0 < length board"
  shows "evaluateBoard board p = Inr (evaluate board p)"
  by (rule checkWinner_Inr[OF assms]) (simp add: evaluateBoard_def evaluate_def)

lemma isGameOver_terminal:
  assumes "0 < length board"
  shows "isGameOver board = Inr (terminal board)"
  by (rule checkWinner_Inr[OF assms]) (simp add: isGameOver_def terminal_def)

lemma minimax_at_limit:
  assumes "within_budget perf" "startTime this = now_start perf" "maxDepth \<le> depth"
  shows "minimax perf this board depth isMaximizing aiPlayer alpha beta maxDepth =
          (case evaluateBoard board aiPlayer of Inl e \<Rightarrow> Inl e
           | Inr s \<Rightarrow> Inr (this\<lparr>positionsEvaluated := positionsEvaluated this + 1\<rparr>,
               \<lparr>score = Fin s, move = None, positionsEvaluated_r = positionsEvaluated this + 1\<rparr>))"
proof -
  have "\<not> now_node perf (Suc (positionsEvaluated this)) - now_start perf > maxThinkingTime"
    using assms(1) by (simp add: within_budget_def not_less)
  then show ?thesis
    using assms(2,3) by (subst minimax.simps) (simp add: Let_def split: sum.splits)
qed

lemma minimax_game_over:
  assumes "within_budget perf" "startTime this = now_start perf" "depth < maxDepth"
    "isGameOver board = Inr True"
  shows "minimax perf this board depth isMaximizing aiPlayer alpha beta maxDepth =
          (case evaluateBoard board aiPlayer of Inl e \<Rightarrow> Inl e
           | Inr s \<Rightarrow> Inr (this\<lparr>positionsEvaluated := positionsEvaluated this + 1\<rparr>,
               \<lparr>score = Fin (if s > 0 then s - int depth else s + int depth), move = None,
                positionsEvaluated_r = positionsEvaluated this + 1\<rparr>))"
proof -
  have "\<not> now_node perf (Suc (positionsEvaluated this)) - now_start perf > maxThinkingTime"
    using assms(1) by (simp add: within_budget_def not_less)
  then show ?thesis
    using assms(2,3,4) by (subst minimax.simps) (simp add: Let_def split: sum.splits)
qed

lemma minimax_no_moves:
  assumes "within_budget perf" "startTime this = now_start perf" "depth < maxDepth"
    "isGameOver board = Inr False" "getAvailableMoves board = []"
  shows "minimax perf this board depth isMaximizing aiPlayer alpha beta maxDepth =
          Inr (this\<lparr>positionsEvaluated := positionsEvaluated this + 1\<rparr>,
               \<lparr>score = Fin 0, move = None,
                positionsEvaluated_r = positionsEvaluated this + 1\<rparr>)"
proof -
  have "\<not> now_node perf (Suc (positionsEvaluated this)) - now_start perf > maxThinkingTime"
    using assms(1) by (simp add: within_budget_def not_less)
  then show ?thesis
    using assms(2-) by (subst minimax.simps) (simp add: Let_def split: sum.splits)
qed

text \<open>
  Claim C4, as amended. At a node that is not aborted by the time budget: below the
  depth cap, a position won by the searcher scores \<open>10 - depth\<close> and a position won by
  the opponent scores \<open>-10 + depth\<close>; at or beyond the cap every node, terminal or not,
  returns the unadjusted \<^verbatim>\<open>evaluateBoard\<close> score, because the depth test comes first.
\<close>

theorem terminal_scores_below_limit:
  assumes "within_budget perf" and "startTime this = now_start perf"
    and "checkWinner board = Inr res"
  shows "(depth < maxDepth \<and> winner res = Some aiPlayer \<longrightarrow>
            minimax_score (minimax perf this board depth isMaximizing aiPlayer alpha beta maxDepth)
              = Some (Fin (10 - int depth)))
       \<and> (depth < maxDepth \<and> winner res = Some (getOpponent aiPlayer) \<longrightarrow>
            minimax_score (minimax perf this board depth isMaximizing aiPlayer alpha beta maxDepth)
              = Some (Fin (- 10 + int depth)))
       \<and> (maxDepth \<le> depth \<longrightarrow>
            minimax_score (minimax perf this board depth isMaximizing aiPlayer alpha beta maxDepth)
              = Some (Fin (if winner res = Some aiPlayer then 10
                           else if winner res = Some (getOpponent aiPlayer) then - 10 else 0)))"
proof (intro conjI impI)
  have ev: "evaluateBoard board aiPlayer =
      Inr (if winner res = Some aiPlayer then 10
           else if winner res = Some (getOpponent aiPlayer) then - 10 else 0)"
    using assms(3) by (simp add: evaluateBoard_def)
  have opp: "getOpponent aiPlayer \<noteq> aiPlayer" by (simp add: getOpponent_def)
  {
    assume a: "depth < maxDepth \<and> winner res = Some aiPlayer"
    then have "isGameOver board = Inr True" using assms(3) by (simp add: isGameOver_def)
    then show "minimax_score (minimax perf this board depth isMaximizing aiPlayer alpha beta maxDepth)
              = Some (Fin (10 - int depth))"
      using a ev by (simp add: minimax_game_over[OF assms(1,2)] minimax_score_def)
  }
  {
    assume a: "depth < maxDepth \<and> winner res = Some (getOpponent aiPlayer)"
    then have "isGameOver board = Inr True" using assms(3) by (simp add: isGameOver_def)
    then show "minimax_score (minimax perf this board depth isMaximizing aiPlayer alpha beta maxDepth)
              = Some (Fin (- 10 + int depth))"
      using a ev opp by (simp add: minimax_game_over[OF assms(1,2)] minimax_score_def)
  }
  {
    assume "maxDepth \<le> depth"
    then show "minimax_score (minimax perf this board depth isMaximizing aiPlayer alpha beta maxDepth)
              = Some (Fin (if winner res = Some aiPlayer then 10
                           else if winner res = Some (getOpponent aiPlayer) then - 10 else 0))"
      using ev by (simp add: minimax_at_limit[OF assms(1,2)] minimax_score_def)
  }
qed

text \<open>
  Claim C10, as amended. At a node that is not aborted by the time budget, a full board
  without a winner scores \<open>+depth\<close> below the depth cap (strictly positive at positive
  depth) and \<open>0\<close> at or beyond the cap; the score-0 branch of an empty move list is
  reached only by a board that is not game over and yet has no available move.
\<close>

theorem drawn_position_scores:
  assumes "within_budget perf" and "startTime this = now_start perf"
    and "checkWinner board = Inr res" and "winner res = None"
  shows "(isBoardFull board \<and> depth < maxDepth \<longrightarrow>
            minimax_score (minimax perf this board depth isMaximizing aiPlayer alpha beta maxDepth)
              = Some (Fin (int depth)))
       \<and> (isBoardFull board \<and> maxDepth \<le> depth \<longrightarrow>
            minimax_score (minimax perf this board depth isMaximizing aiPlayer alpha beta maxDepth)
              = Some (Fin 0))
       \<and> (\<not> isBoardFull board \<and> getAvailableMoves board = [] \<and> depth < maxDepth \<longrightarrow>
            minimax_score (minimax perf this board depth isMaximizing aiPlayer alpha beta maxDepth)
              = Some (Fin 0))"
proof (intro conjI impI)
  have ev: "evaluateBoard board aiPlayer = Inr 0"
    using assms(3,4) by (simp add: evaluateBoard_def)
  {
    assume a: "isBoardFull board \<and> depth < maxDepth"
    then have "isGameOver board = Inr True" using assms(3) by (simp add: isGameOver_def)
    then show "minimax_score (minimax perf this board depth isMaximizing aiPlayer alpha beta maxDepth)
              = Some (Fin (int depth))"
      using a ev by (simp add: minimax_game_over[OF assms(1,2)] minimax_score_def)
  }
  {
    assume "isBoardFull board \<and> maxDepth \<le> depth"
    then show "minimax_score (minimax perf this board depth isMaximizing aiPlayer alpha beta maxDepth)
              = Some (Fin 0)"
      using ev by (simp add: minimax_at_limit[OF assms(1,2)] minimax_score_def)
  }
  {
    assume a: "\<not> isBoardFull board \<and> getAvailableMoves board = [] \<and> depth < maxDepth"
    then have "isGameOver board = Inr False" using assms(3,4) by (simp add: isGameOver_def)
    then show "minimax_score (minimax perf this board depth isMaximizing aiPlayer alpha beta maxDepth)
              = Some (Fin 0)"
      using a by (simp add: minimax_no_moves[OF assms(1,2)] minimax_score_def)
  }
qed


lemma within_budget_steady: "within_budget steady_clock"
  by (simp add: within_budget_def steady_clock_def maxThinkingTime_def)

lemma startTime_new_engine: "startTime new_engine = now_start steady_clock"
  by (simp add: new_engine_def steady_clock_def)

lemma checkWinner_won_board:
  "checkWinner [[Some PLAYER_X, Some PLAYER_O, Some PLAYER_X],
                [Some PLAYER_O, Some PLAYER_X, Some PLAYER_O],
                [Some PLAYER_O, Some PLAYER_X, Some PLAYER_X]]
     = Inr \<lparr>winner = Some PLAYER_X, winningLine = Some [(0, 0), (1, 1), (2, 2)]\<rparr>"
  by (simp add: checkWinner_def generateWinningCombinations_def upt_rec cell_at_def)

lemma checkWinner_drawn_board:
  "checkWinner [[Some PLAYER_X, Some PLAYER_O, Some PLAYER_X],
                [Some PLAYER_X, Some PLAYER_O, Some PLAYER_O],
                [Some PLAYER_O, Some PLAYER_X, Some PLAYER_X]]
     = Inr \<lparr>winner = None, winningLine = None\<rparr>"
  by (simp add: checkWinner_def generateWinningCombinations_def upt_rec cell_at_def)

theorem terminal_scores_below_limit_witness:
  "minimax_score (minimax steady_clock new_engine
      [[Some PLAYER_X, Some PLAYER_O, Some PLAYER_X],
       [Some PLAYER_O, Some PLAYER_X, Some PLAYER_O],
       [Some PLAYER_O, Some PLAYER_X, Some PLAYER_X]] 5 False PLAYER_X NegInf PosInf 9)
     = Some (Fin 5)
   \<and> minimax_score (minimax steady_clock new_engine
      [[Some PLAYER_X, Some PLAYER_O, Some PLAYER_X],
       [Some PLAYER_O, Some PLAYER_X, Some PLAYER_O],
       [Some PLAYER_O, Some PLAYER_X, Some PLAYER_X]] 5 True PLAYER_O NegInf PosInf 9)
     = Some (Fin (- 5))"
  using terminal_scores_below_limit
      [OF within_budget_steady startTime_new_engine checkWinner_won_board,
       of 5 9 PLAYER_X False NegInf PosInf]
    terminal_scores_below_limit
      [OF within_budget_steady startTime_new_engine checkWinner_won_board,
       of 5 9 PLAYER_O True NegInf PosInf]
  by (simp add: getOpponent_def)

text \<open>
  Claim C4 as stated fails at the depth cap: a board won by the searcher, at depth 9 with
  cap 9, scores 10 and not \<open>10 - 9\<close>.
\<close>

theorem terminal_win_at_limit_unadjusted:
  "isGameOver [[Some PLAYER_X, Some PLAYER_O, Some PLAYER_X],
               [Some PLAYER_O, Some PLAYER_X, Some PLAYER_O],
               [Some PLAYER_O, Some PLAYER_X, Some PLAYER_X]] = Inr True
   \<and> evaluateBoard [[Some PLAYER_X, Some PLAYER_O, Some PLAYER_X],
               [Some PLAYER_O, Some PLAYER_X, Some PLAYER_O],
               [Some PLAYER_O, Some PLAYER_X, Some PLAYER_X]] PLAYER_X = Inr 10
   \<and> minimax_score (minimax steady_clock new_engine
        [[Some PLAYER_X, Some PLAYER_O, Some PLAYER_X],
         [Some PLAYER_O, Some PLAYER_X, Some PLAYER_O],
         [Some PLAYER_O, Some PLAYER_X, Some PLAYER_X]] 9 False PLAYER_X NegInf PosInf 9)
      = Some (Fin 10)
   \<and> minimax_score (minimax steady_clock new_engine
        [[Some PLAYER_X, Some PLAYER_O, Some PLAYER_X],
         [Some PLAYER_O, Some PLAYER_X, Some PLAYER_O],
         [Some PLAYER_O, Some PLAYER_X, Some PLAYER_X]] 9 False PLAYER_X NegInf PosInf 9)
      \<noteq> Some (Fin (10 - 9))"
  by (simp add: minimax_at_limit[OF within_budget_steady startTime_new_engine]
        isGameOver_def evaluateBoard_def checkWinner_won_board minimax_score_def)

lemma checkWinner_ragged_board:
  "checkWinner [[Some PLAYER_X, Some PLAYER_O, Some PLAYER_X, None],
                [Some PLAYER_X, Some PLAYER_O, Some PLAYER_O],
                [Some PLAYER_O, Some PLAYER_X, Some PLAYER_X]]
     = Inr \<lparr>winner = None, winningLine = None\<rparr>"
  by (simp add: checkWinner_def generateWinningCombinations_def upt_rec cell_at_def)

theorem drawn_position_scores_witness:
  "minimax_score (minimax steady_clock new_engine
      [[Some PLAYER_X, Some PLAYER_O, Some PLAYER_X],
       [Some PLAYER_X, Some PLAYER_O, Some PLAYER_O],
       [Some PLAYER_O, Some PLAYER_X, Some PLAYER_X]] 3 False PLAYER_X NegInf PosInf 9)
     = Some (Fin 3)
   \<and> minimax_score (minimax steady_clock new_engine
      [[Some PLAYER_X, Some PLAYER_O, Some PLAYER_X],
       [Some PLAYER_X, Some PLAYER_O, Some PLAYER_O],
       [Some PLAYER_O, Some PLAYER_X, Some PLAYER_X]] 9 False PLAYER_X NegInf PosInf 9)
     = Some (Fin 0)
   \<and> minimax_score (minimax steady_clock new_engine
      [[Some PLAYER_X, Some PLAYER_O, Some PLAYER_X, None],
       [Some PLAYER_X, Some PLAYER_O, Some PLAYER_O],
       [Some PLAYER_O, Some PLAYER_X, Some PLAYER_X]] 3 False PLAYER_X NegInf PosInf 9)
     = Some (Fin 0)"
proof -
  have "getAvailableMoves [[Some PLAYER_X, Some PLAYER_O, Some PLAYER_X, None],
       [Some PLAYER_X, Some PLAYER_O, Some PLAYER_O],
       [Some PLAYER_O, Some PLAYER_X, Some PLAYER_X]] = []"
    by code_simp
  then show ?thesis
    using drawn_position_scores
      [OF within_budget_steady startTime_new_engine checkWinner_drawn_board,
       of 3 9 False PLAYER_X NegInf PosInf]
      drawn_position_scores
      [OF within_budget_steady startTime_new_engine checkWinner_drawn_board,
       of 9 9 False PLAYER_X NegInf PosInf]
      drawn_position_scores
      [OF within_budget_steady startTime_new_engine checkWinner_ragged_board,
       of 3 9 False PLAYER_X NegInf PosInf]
    by (simp add: isBoardFull_def)
qed

text \<open>
  Claim C10 as stated fails at the depth cap: a drawn full board, at depth 9 with cap 9,
  scores 0 and not 9.
\<close>

theorem terminal_draw_at_limit_zero:
  "isGameOver [[Some PLAYER_X, Some PLAYER_O, Some PLAYER_X],
               [Some PLAYER_X, Some PLAYER_O, Some PLAYER_O],
               [Some PLAYER_O, Some PLAYER_X, Some PLAYER_X]] = Inr True
   \<and> minimax_score (minimax steady_clock new_engine
        [[Some PLAYER_X, Some PLAYER_O, Some PLAYER_X],
         [Some PLAYER_X, Some PLAYER_O, Some PLAYER_O],
         [Some PLAYER_O, Some PLAYER_X, Some PLAYER_X]] 9 False PLAYER_X NegInf PosInf 9)
      = Some (Fin 0)
   \<and> minimax_score (minimax steady_clock new_engine
        [[Some PLAYER_X, Some PLAYER_O, Some PLAYER_X],
         [Some PLAYER_X, Some PLAYER_O, Some PLAYER_O],
         [Some PLAYER_O, Some PLAYER_X, Some PLAYER_X]] 9 False PLAYER_X NegInf PosInf 9)
      \<noteq> Some (Fin 9)"
  by (simp add: minimax_at_limit[OF within_budget_steady startTime_new_engine]
        isGameOver_def evaluateBoard_def checkWinner_drawn_board minimax_score_def
        isBoardFull_def)
section \<open>Node counter and available moves\<close>

lemma max_loop_counts:
  assumes child: "\<And>this b al be this' r.
     minimax perf this b (Suc depth) False ai al be maxDepth = Inr (this', r)
       \<Longrightarrow> positionsEvaluated this < positionsEvaluated this'"
  shows "minimax_max_loop perf this board depth ai maxDepth ms me bm alpha beta = Inr (this', r)
     \<Longrightarrow> positionsEvaluated this \<le> positionsEvaluated this'"
proof (induction ms arbitrary: this me bm alpha)
  case Nil
  then show ?case by auto
next
  case (Cons m ms)
  show ?case
  proof (cases "timeoutReached this")
    case True
    then show ?thesis using Cons.prems by auto
  next
    case False
    from Cons.prems False obtain nb t1 r1 where
      nb: "makeMove board (row m) (col m) ai = Inr nb"
      and c: "minimax perf this nb (Suc depth) False ai alpha beta maxDepth = Inr (t1, r1)"
      by (auto split: sum.splits)
    have le1: "positionsEvaluated this < positionsEvaluated t1" using child[OF c] .
    show ?thesis
    proof (cases "beta \<le> max alpha (score r1)")
      case True
      then show ?thesis using Cons.prems False nb c le1 by (auto simp: Let_def)
    next
      case b: False
      have "minimax_max_loop perf t1 board depth ai maxDepth ms
              (if me < score r1 then score r1 else me)
              (if me < score r1 then Some m else bm) (max alpha (score r1)) beta = Inr (this', r)"
        using Cons.prems False nb c b by (simp add: Let_def)
      from Cons.IH[OF this] le1 show ?thesis by simp
    qed
  qed
qed

lemma min_loop_counts:
  assumes child: "\<And>this b al be this' r.
     minimax perf this b (Suc depth) True ai al be maxDepth = Inr (this', r)
       \<Longrightarrow> positionsEvaluated this < positionsEvaluated this'"
  shows "minimax_min_loop perf this board depth ai maxDepth ms me bm alpha beta = Inr (this', r)
     \<Longrightarrow> positionsEvaluated this \<le> positionsEvaluated this'"
proof (induction ms arbitrary: this me bm beta)
  case Nil
  then show ?case by auto
next
  case (Cons m ms)
  show ?case
  proof (cases "timeoutReached this")
    case True
    then show ?thesis using Cons.prems by auto
  next
    case False
    from Cons.prems False obtain nb t1 r1 where
      nb: "makeMove board (row m) (col m) (getOpponent ai) = Inr nb"
      and c: "minimax perf this nb (Suc depth) True ai alpha beta maxDepth = Inr (t1, r1)"
      by (auto split: sum.splits)
    have le1: "positionsEvaluated this < positionsEvaluated t1" using child[OF c] .
    show ?thesis
    proof (cases "min beta (score r1) \<le> alpha")
      case True
      then show ?thesis using Cons.prems False nb c le1 by (auto simp: Let_def)
    next
      case b: False
      have "minimax_min_loop perf t1 board depth ai maxDepth ms
              (if score r1 < me then score r1 else me)
              (if score r1 < me then Some m else bm) alpha (min beta (score r1)) = Inr (this', r)"
        using Cons.prems False nb c b by (simp add: Let_def)
      from Cons.IH[OF this] le1 show ?thesis by simp
    qed
  qed
qed

lemma minimax_counts:
  "minimax perf this board depth isMax ai alpha beta maxDepth = Inr (this', r)
     \<Longrightarrow> positionsEvaluated this < positionsEvaluated this'"
proof (induction "maxDepth - depth" arbitrary: depth this board isMax alpha beta this' r)
  case 0
  then show ?case
    by (subst (asm) minimax.simps) (auto simp: Let_def split: if_splits sum.splits)
next
  case (Suc k)
  have child: "minimax perf t b (Suc depth) mx ai al be maxDepth = Inr (t', r')
       \<Longrightarrow> positionsEvaluated t < positionsEvaluated t'" for t b mx al be t' r'
    using Suc.hyps(1)[of "Suc depth"] Suc.hyps(2) by auto
  let ?t = "this\<lparr>positionsEvaluated := positionsEvaluated this + 1\<rparr>"
  from Suc.prems consider
      (leaf) "positionsEvaluated this' = positionsEvaluated this + 1"
    | (mx) ms where "minimax_max_loop perf ?t board depth ai maxDepth ms NegInf None alpha beta
                  = Inr (this', r)"
    | (mn) ms where "minimax_min_loop perf ?t board depth ai maxDepth ms PosInf None alpha beta
                  = Inr (this', r)"
    by (subst (asm) minimax.simps) (auto simp: Let_def split: if_splits sum.splits)
  then show ?case
  proof cases
    case leaf
    then show ?thesis by simp
  next
    case mx
    have "positionsEvaluated ?t \<le> positionsEvaluated this'"
    proof (rule max_loop_counts[OF _ mx])
      fix t b al be t' r'
      assume "minimax perf t b (Suc depth) False ai al be maxDepth = Inr (t', r')"
      then show "positionsEvaluated t < positionsEvaluated t'" by (rule child)
    qed
    then show ?thesis by simp
  next
    case mn
    have "positionsEvaluated ?t \<le> positionsEvaluated this'"
    proof (rule min_loop_counts[OF _ mn])
      fix t b al be t' r'
      assume "minimax perf t b (Suc depth) True ai al be maxDepth = Inr (t', r')"
      then show "positionsEvaluated t < positionsEvaluated t'" by (rule child)
    qed
    then show ?thesis by simp
  qed
qed

lemma concat_map_if_filter:
  "concat (map (\<lambda>c. if P c then [f c] else []) xs) = map f (filter P xs)"
  by (induction xs) auto

lemma concat_map_product:
  "concat (map (\<lambda>r. map (g r) (filter (P r) ys)) xs) =
     map (\<lambda>(r, c). g r c) (filter (\<lambda>(r, c). P r c) (List.product xs ys))"
  by (induction xs) (auto simp: filter_map comp_def)

lemma getAvailableMoves_filter:
  "getAvailableMoves board =
     map (\<lambda>(r, c). \<lparr>row = int r, col = int c\<rparr>)
       (filter (\<lambda>(r, c). cell_at board r c = Some None)
          (List.product [0..<length board] [0..<length board]))"
  unfolding getAvailableMoves_def Let_def concat_map_if_filter
  by (rule concat_map_product)

lemma available_iff:
  "m \<in> set (getAvailableMoves board) \<longleftrightarrow>
     0 \<le> row m \<and> row m < int (length board) \<and> 0 \<le> col m \<and> col m < int (length board)
     \<and> cell_at board (nat (row m)) (nat (col m)) = Some None"
proof
  assume "m \<in> set (getAvailableMoves board)"
  then obtain r c where "m = \<lparr>row = int r, col = int c\<rparr>" "r < length board" "c < length board"
     "cell_at board r c = Some None"
    by (auto simp: getAvailableMoves_filter)
  then show "0 \<le> row m \<and> row m < int (length board) \<and> 0 \<le> col m \<and> col m < int (length board)
     \<and> cell_at board (nat (row m)) (nat (col m)) = Some None" by simp
next
  assume a: "0 \<le> row m \<and> row m < int (length board) \<and> 0 \<le> col m \<and> col m < int (length board)
     \<and> cell_at board (nat (row m)) (nat (col m)) = Some None"
  then have "(nat (row m), nat (col m)) \<in> set (filter (\<lambda>(r, c). cell_at board r c = Some None)
          (List.product [0..<length board] [0..<length board]))"
    by auto
  then have "(\<lambda>(r, c). \<lparr>row = int r, col = int c\<rparr>) (nat (row m), nat (col m))
        \<in> set (getAvailableMoves board)"
    unfolding getAvailableMoves_filter set_map by (rule imageI)
  then show "m \<in> set (getAvailableMoves board)" using a by (cases m) simp
qed

lemma available_valid:
  "m \<in> set (getAvailableMoves board) \<longleftrightarrow> isValidMove board (row m) (col m)"
  by (simp add: available_iff isValidMove_def Let_def)

lemma makeMove_available:
  assumes "m \<in> set (getAvailableMoves board)"
  shows "makeMove board (row m) (col m) p = Inr (place board m p)"
  using assms by (simp add: available_valid makeMove_valid place_def)

lemma length_place [simp]: "length (place board m p) = length board"
  by (simp add: place_def)

lemma wf_board_place:
  assumes "wf_board board"
  shows "wf_board (place board m p)"
proof -
  have "length (place board m p ! n) = length board" if "n < length board" for n
    using assms that
    by (cases "n = nat (row m)") (simp_all add: wf_board_def place_def list_all_length)
  then show ?thesis
    using assms by (simp add: wf_board_def list_all_length)
qed

lemma wf_board_pos: "wf_board board \<Longrightarrow> 0 < length board"
  by (simp add: wf_board_def)

lemma length_available_le: "length (getAvailableMoves board) \<le> length board * length board"
proof -
  have "length (getAvailableMoves board)
      \<le> length (List.product [0..<length board] [0..<length board])"
    unfolding getAvailableMoves_filter length_map by (rule length_filter_le)
  then show ?thesis by simp
qed

lemma all_available_iff:
  "length (getAvailableMoves board) = length board * length board \<longleftrightarrow>
     (\<forall>r<length board. \<forall>c<length board. cell_at board r c = Some None)"
proof -
  let ?cells = "List.product [0..<length board] [0..<length board]"
  let ?P = "\<lambda>(r, c). cell_at board r c = Some None"
  have "length (getAvailableMoves board) = length board * length board
      \<longleftrightarrow> length (filter ?P ?cells) = length ?cells"
    by (simp add: getAvailableMoves_filter)
  also have "\<dots> \<longleftrightarrow> (\<forall>x \<in> set ?cells. ?P x)"
  proof
    assume "length (filter ?P ?cells) = length ?cells"
    then have "filter ?P ?cells = ?cells"
      by (metis length_filter_less less_irrefl filter_True)
    then show "\<forall>x \<in> set ?cells. ?P x" by (simp only: filter_id_conv)
  next
    assume "\<forall>x \<in> set ?cells. ?P x"
    then have "filter ?P ?cells = ?cells" by (simp only: filter_id_conv)
    then show "length (filter ?P ?cells) = length ?cells" by simp
  qed
  also have "\<dots> \<longleftrightarrow> (\<forall>r<length board. \<forall>c<length board. cell_at board r c = Some None)"
    by auto
  finally show ?thesis .
qed

lemma wf_empty_iff:
  assumes "wf_board board"
  shows "(\<forall>r<length board. \<forall>c<length board. cell_at board r c = Some None)
     \<longleftrightarrow> board = createEmptyBoard (length board)"
proof
  assume a: "\<forall>r<length board. \<forall>c<length board. cell_at board r c = Some None"
  show "board = createEmptyBoard (length board)"
  proof (rule nth_equalityI)
    show "length board = length (createEmptyBoard (length board))"
      by (simp add: createEmptyBoard_def)
    fix r assume r: "r < length board"
    have lr: "length (board ! r) = length board"
      using assms r by (simp add: wf_board_def list_all_length)
    have "board ! r = replicate (length board) None"
    proof (rule nth_equalityI)
      show "length (board ! r) = length (replicate (length board) None)" using lr by simp
      fix c assume "c < length (board ! r)"
      then show "board ! r ! c = replicate (length board) None ! c"
        using a r lr by (auto simp: cell_at_def split: if_splits)
    qed
    then show "board ! r = createEmptyBoard (length board) ! r"
      using r by (simp add: createEmptyBoard_def)
  qed
next
  assume e: "board = createEmptyBoard (length board)"
  have "cell_at (createEmptyBoard n) r c = Some None" if "r < n" "c < n" for r c n
    using that by (simp add: cell_at_def createEmptyBoard_def)
  then show "\<forall>r<length board. \<forall>c<length board. cell_at board r c = Some None"
    using e by metis
qed
section \<open>The heuristic fallback and the choice of strategy\<close>

lemma immediate_win_place:
  assumes "m \<in> set (getAvailableMoves board)" "0 < length board"
  shows "immediate_win board m p \<longleftrightarrow> winner_of (place board m p) = Some p"
proof -
  have "0 < length (place board m p)" using assms(2) by simp
  then show ?thesis
    by (rule checkWinner_Inr) (simp add: immediate_win_def makeMove_available[OF assms(1)])
qed

lemma evaluate_pos: "0 < evaluate board p \<longleftrightarrow> winner_of board = Some p"
  by (simp add: evaluate_def)

lemma evaluate_neg: "evaluate board p < 0 \<longleftrightarrow> winner_of board = Some (getOpponent p)"
  by (auto simp: evaluate_def getOpponent_def)

lemma winner_terminal: "winner_of board = Some p \<Longrightarrow> terminal board"
  by (simp add: terminal_def)

lemma winning_move_loop_find:
  assumes "0 < length board" "set ms \<subseteq> set (getAvailableMoves board)"
  shows "winning_move_loop board aiPlayer ms = Inr (find (\<lambda>m. immediate_win board m aiPlayer) ms)"
  using assms(2)
proof (induction ms)
  case Nil
  then show ?case by simp
next
  case (Cons m ms)
  then have m: "m \<in> set (getAvailableMoves board)" by simp
  have pos: "0 < length (place board m aiPlayer)" using assms(1) by simp
  show ?case
    using Cons winner_terminal[of "place board m aiPlayer" aiPlayer]
    by (auto simp: makeMove_available[OF m] isGameOver_terminal[OF pos]
          evaluateBoard_evaluate[OF pos] evaluate_pos immediate_win_place[OF m assms(1)])
qed

lemma blocking_move_loop_find:
  assumes "0 < length board" "set ms \<subseteq> set (getAvailableMoves board)"
  shows "blocking_move_loop board aiPlayer (getOpponent aiPlayer) ms =
           Inr (find (\<lambda>m. immediate_win board m (getOpponent aiPlayer)) ms)"
  using assms(2)
proof (induction ms)
  case Nil
  then show ?case by simp
next
  case (Cons m ms)
  then have m: "m \<in> set (getAvailableMoves board)" by simp
  have pos: "0 < length (place board m (getOpponent aiPlayer))" using assms(1) by simp
  show ?case
    using Cons winner_terminal[of "place board m (getOpponent aiPlayer)" "getOpponent aiPlayer"]
    by (auto simp: makeMove_available[OF m] isGameOver_terminal[OF pos]
          evaluateBoard_evaluate[OF pos] evaluate_neg immediate_win_place[OF m assms(1)])
qed

lemma find_first_ex:
  "\<exists>x \<in> set xs. P x \<Longrightarrow> \<exists>x. find P xs = Some x \<and> x \<in> set xs \<and> P x"
  by (induction xs) auto

lemma find_first:
  assumes "\<exists>x \<in> set xs. P x"
  obtains x where "find P xs = Some x" "x \<in> set xs" "P x"
  using find_first_ex[OF assms] by blast

text \<open>
  Claim C8. On a well-formed board of size \<open>N\<close> with an available move, the heuristic
  fallback returns the centre cell \<open>(N div 2, N div 2)\<close> when the board is empty; otherwise, when some available move
  wins at once for the mover, it returns such a move; otherwise, when some available
  move would win at once for the opponent, it returns such a move.
\<close>

theorem heuristic_top_tiers:
  assumes "wf_board board" and "getAvailableMoves board \<noteq> []"
  shows "(board = createEmptyBoard (length board) \<longrightarrow>
            getOptimizedMove random board aiPlayer
              = Inr (Some \<lparr>row = int (length board div 2), col = int (length board div 2)\<rparr>))
       \<and> (board \<noteq> createEmptyBoard (length board)
            \<and> (\<exists>m \<in> set (getAvailableMoves board). immediate_win board m aiPlayer) \<longrightarrow>
            (\<exists>m. getOptimizedMove random board aiPlayer = Inr (Some m)
                \<and> m \<in> set (getAvailableMoves board) \<and> immediate_win board m aiPlayer))
       \<and> (board \<noteq> createEmptyBoard (length board)
            \<and> (\<forall>m \<in> set (getAvailableMoves board). \<not> immediate_win board m aiPlayer)
            \<and> (\<exists>m \<in> set (getAvailableMoves board). immediate_win board m (getOpponent aiPlayer)) \<longrightarrow>
            (\<exists>m. getOptimizedMove random board aiPlayer = Inr (Some m)
                \<and> m \<in> set (getAvailableMoves board)
                \<and> immediate_win board m (getOpponent aiPlayer)))"
proof (intro conjI impI)
  have pos: "0 < length board" using assms(1) by (rule wf_board_pos)
  have empty: "length (getAvailableMoves board) = length board * length board
                 \<longleftrightarrow> board = createEmptyBoard (length board)"
    using all_available_iff wf_empty_iff[OF assms(1)] by simp
  have wl: "winning_move_loop board aiPlayer (getAvailableMoves board)
             = Inr (find (\<lambda>m. immediate_win board m aiPlayer) (getAvailableMoves board))"
    by (rule winning_move_loop_find[OF pos]) simp
  have bl: "blocking_move_loop board aiPlayer (getOpponent aiPlayer) (getAvailableMoves board)
             = Inr (find (\<lambda>m. immediate_win board m (getOpponent aiPlayer)) (getAvailableMoves board))"
    by (rule blocking_move_loop_find[OF pos]) simp
  {
    assume "board = createEmptyBoard (length board)"
    then show "getOptimizedMove random board aiPlayer
        = Inr (Some \<lparr>row = int (length board div 2), col = int (length board div 2)\<rparr>)"
      using assms(2) empty by (simp add: getOptimizedMove_def getCenterPosition_def Let_def)
  }
  {
    assume a: "board \<noteq> createEmptyBoard (length board)
            \<and> (\<exists>m \<in> set (getAvailableMoves board). immediate_win board m aiPlayer)"
    then obtain m where m: "find (\<lambda>m. immediate_win board m aiPlayer) (getAvailableMoves board) = Some m"
       "m \<in> set (getAvailableMoves board)" "immediate_win board m aiPlayer"
      using find_first[of "getAvailableMoves board" "\<lambda>m. immediate_win board m aiPlayer"] by blast
    have "getOptimizedMove random board aiPlayer = Inr (Some m)"
      using assms(2) empty a wl m(1) by (simp add: getOptimizedMove_def Let_def)
    then show "\<exists>m. getOptimizedMove random board aiPlayer = Inr (Some m)
                \<and> m \<in> set (getAvailableMoves board) \<and> immediate_win board m aiPlayer"
      using m by blast
  }
  {
    assume a: "board \<noteq> createEmptyBoard (length board)
            \<and> (\<forall>m \<in> set (getAvailableMoves board). \<not> immediate_win board m aiPlayer)
            \<and> (\<exists>m \<in> set (getAvailableMoves board). immediate_win board m (getOpponent aiPlayer))"
    then have none: "find (\<lambda>m. immediate_win board m aiPlayer) (getAvailableMoves board) = None"
      by (simp add: find_None_iff)
    from a obtain m where
      m: "find (\<lambda>m. immediate_win board m (getOpponent aiPlayer)) (getAvailableMoves board) = Some m"
       "m \<in> set (getAvailableMoves board)" "immediate_win board m (getOpponent aiPlayer)"
      using find_first[of "getAvailableMoves board" "\<lambda>m. immediate_win board m (getOpponent aiPlayer)"]
      by blast
    have "getOptimizedMove random board aiPlayer = Inr (Some m)"
      using assms(2) empty a wl bl none m(1) by (simp add: getOptimizedMove_def Let_def)
    then show "\<exists>m. getOptimizedMove random board aiPlayer = Inr (Some m)
                \<and> m \<in> set (getAvailableMoves board)
                \<and> immediate_win board m (getOpponent aiPlayer)"
      using m by blast
  }
qed

theorem heuristic_top_tiers_witness:
  "getOptimizedMove (fixed_random 0) (createEmptyBoard 3) PLAYER_X
       = Inr (Some \<lparr>row = 1, col = 1\<rparr>)
   \<and> getOptimizedMove (fixed_random 0) (createEmptyBoard 4) PLAYER_O
       = Inr (Some \<lparr>row = 2, col = 2\<rparr>)
   \<and> getOptimizedMove (fixed_random 0) (createEmptyBoard 7) PLAYER_X
       = Inr (Some \<lparr>row = 3, col = 3\<rparr>)
   \<and> getOptimizedMove (fixed_random 0)
      [[Some PLAYER_X, Some PLAYER_X, None], [Some PLAYER_O, Some PLAYER_O, None],
       [None, None, None]] PLAYER_X = Inr (Some \<lparr>row = 0, col = 2\<rparr>)
   \<and> getOptimizedMove (fixed_random 0)
      [[Some PLAYER_X, None, None], [Some PLAYER_O, Some PLAYER_O, None],
       [None, None, Some PLAYER_X]] PLAYER_X = Inr (Some \<lparr>row = 1, col = 2\<rparr>)
   \<and> getOptimizedMove (fixed_random 0)
      [[Some PLAYER_X, Some PLAYER_X, Some PLAYER_X, None],
       [Some PLAYER_O, Some PLAYER_O, Some PLAYER_O, None],
       [None, None, None, None], [None, None, None, None]] PLAYER_X
       = Inr (Some \<lparr>row = 0, col = 3\<rparr>)
   \<and> getOptimizedMove (fixed_random 0)
      [[Some PLAYER_X, None, None, Some PLAYER_X],
       [Some PLAYER_O, Some PLAYER_O, Some PLAYER_O, None],
       [None, None, Some PLAYER_X, None], [None, None, None, None]] PLAYER_X
       = Inr (Some \<lparr>row = 1, col = 3\<rparr>)"
proof -
  let ?b1 = "[[Some PLAYER_X, Some PLAYER_X, None], [Some PLAYER_O, Some PLAYER_O, None],
       [None, None, None]]"
  let ?b2 = "[[Some PLAYER_X, None, None], [Some PLAYER_O, Some PLAYER_O, None],
       [None, None, Some PLAYER_X]]"
  let ?b3 = "[[Some PLAYER_X, Some PLAYER_X, Some PLAYER_X, None],
       [Some PLAYER_O, Some PLAYER_O, Some PLAYER_O, None],
       [None, None, None, None], [None, None, None, None]]"
  let ?b4 = "[[Some PLAYER_X, None, None, Some PLAYER_X],
       [Some PLAYER_O, Some PLAYER_O, Some PLAYER_O, None],
       [None, None, Some PLAYER_X, None], [None, None, None, None]]"
  have len: "length (createEmptyBoard 3) = 3" "length (createEmptyBoard 4) = 4"
     "length (createEmptyBoard 7) = 7"
    by (simp_all add: createEmptyBoard_def)
  have wfe: "wf_board (createEmptyBoard 3)" "wf_board (createEmptyBoard 4)"
     "wf_board (createEmptyBoard 7)"
    by (simp_all add: wf_board_def createEmptyBoard_def list_all_length)
  have ave: "getAvailableMoves (createEmptyBoard 3) \<noteq> []"
     "getAvailableMoves (createEmptyBoard 4) \<noteq> []"
     "getAvailableMoves (createEmptyBoard 7) \<noteq> []"
    by code_simp+
  have centre: "getOptimizedMove (fixed_random 0) (createEmptyBoard 3) PLAYER_X
       = Inr (Some \<lparr>row = 1, col = 1\<rparr>)"
    "getOptimizedMove (fixed_random 0) (createEmptyBoard 4) PLAYER_O
       = Inr (Some \<lparr>row = 2, col = 2\<rparr>)"
    "getOptimizedMove (fixed_random 0) (createEmptyBoard 7) PLAYER_X
       = Inr (Some \<lparr>row = 3, col = 3\<rparr>)"
    using heuristic_top_tiers[OF wfe(1) ave(1), of "fixed_random 0" PLAYER_X]
      heuristic_top_tiers[OF wfe(2) ave(2), of "fixed_random 0" PLAYER_O]
      heuristic_top_tiers[OF wfe(3) ave(3), of "fixed_random 0" PLAYER_X]
    unfolding len by simp_all
  have wf: "wf_board ?b1" "wf_board ?b2" "wf_board ?b3" "wf_board ?b4"
    by (simp_all add: wf_board_def)
  have av: "getAvailableMoves ?b1 \<noteq> []" "getAvailableMoves ?b2 \<noteq> []"
     "getAvailableMoves ?b3 \<noteq> []" "getAvailableMoves ?b4 \<noteq> []"
    by code_simp+
  have e: "?b1 \<noteq> createEmptyBoard (length ?b1)" "?b2 \<noteq> createEmptyBoard (length ?b2)"
     "?b3 \<noteq> createEmptyBoard (length ?b3)" "?b4 \<noteq> createEmptyBoard (length ?b4)"
    by (simp_all add: createEmptyBoard_def numeral_3_eq_3 numeral_eq_Suc)
  have w1: "immediate_win ?b1 \<lparr>row = 0, col = 2\<rparr> PLAYER_X"
     "\<lparr>row = 0, col = 2\<rparr> \<in> set (getAvailableMoves ?b1)"
     "immediate_win ?b3 \<lparr>row = 0, col = 3\<rparr> PLAYER_X"
     "\<lparr>row = 0, col = 3\<rparr> \<in> set (getAvailableMoves ?b3)"
    by code_simp+
  have w2: "\<forall>m \<in> set (getAvailableMoves ?b2). \<not> immediate_win ?b2 m PLAYER_X"
    "immediate_win ?b2 \<lparr>row = 1, col = 2\<rparr> (getOpponent PLAYER_X)"
     "\<lparr>row = 1, col = 2\<rparr> \<in> set (getAvailableMoves ?b2)"
    "\<forall>m \<in> set (getAvailableMoves ?b4). \<not> immediate_win ?b4 m PLAYER_X"
    "immediate_win ?b4 \<lparr>row = 1, col = 3\<rparr> (getOpponent PLAYER_X)"
     "\<lparr>row = 1, col = 3\<rparr> \<in> set (getAvailableMoves ?b4)"
    by code_simp+
  have c: "getOptimizedMove (fixed_random 0) ?b1 PLAYER_X = Inr (Some \<lparr>row = 0, col = 2\<rparr>)"
    "getOptimizedMove (fixed_random 0) ?b2 PLAYER_X = Inr (Some \<lparr>row = 1, col = 2\<rparr>)"
    "getOptimizedMove (fixed_random 0) ?b3 PLAYER_X = Inr (Some \<lparr>row = 0, col = 3\<rparr>)"
    "getOptimizedMove (fixed_random 0) ?b4 PLAYER_X = Inr (Some \<lparr>row = 1, col = 3\<rparr>)"
    by code_simp+
  show ?thesis
    using centre
      heuristic_top_tiers[OF wf(1) av(1), of "fixed_random 0" PLAYER_X]
      heuristic_top_tiers[OF wf(2) av(2), of "fixed_random 0" PLAYER_X]
      heuristic_top_tiers[OF wf(3) av(3), of "fixed_random 0" PLAYER_X]
      heuristic_top_tiers[OF wf(4) av(4), of "fixed_random 0" PLAYER_X]
      e w1 w2 c
    by simp
qed

text \<open>
  Claim C1, as amended. In hard mode \<^verbatim>\<open>getBestMove\<close> runs the minimax search, with
  cap 9 and at least one node, exactly on boards of size 3; on every board of size 4 or
  more it returns the move of the heuristic fallback with score 0 and without visiting
  a node. The caps for size 4 (2 when more than 8 moves remain, else 3) and size 5 (2)
  and the fallback from size 6 are what \<^verbatim>\<open>getHardMove\<close> computes when it is called
  with such a board, which \<^verbatim>\<open>getBestMove\<close> never does.
\<close>

theorem hard_mode_dispatch:
  "(length board = 3 \<longrightarrow>
      getBestMove perf random this board aiPlayer Hard =
        (case minimax perf
                (this\<lparr>positionsEvaluated := 0, startTime := now_start perf,
                      timeoutReached := False\<rparr>)
                board 0 True aiPlayer NegInf PosInf 9 of
           Inl e \<Rightarrow> Inl e
         | Inr (this', result) \<Rightarrow>
             Inr (this', \<lparr>bm_move = move result,
                          bm_metrics = \<lparr>positionsEvaluated_m = positionsEvaluated this',
                                        thinkingTime = round (now_end perf - startTime this'),
                                        lastMoveScore = score result\<rparr>\<rparr>))
      \<and> (\<forall>n. nodes_visited (getBestMove perf random this board aiPlayer Hard) = Some n
            \<longrightarrow> 1 \<le> n))
   \<and> (3 < length board \<longrightarrow>
      getBestMove perf random this board aiPlayer Hard =
        (case getOptimizedMove random board aiPlayer of
           Inl e \<Rightarrow> Inl e
         | Inr m \<Rightarrow>
             Inr (this\<lparr>positionsEvaluated := 0, startTime := now_start perf,
                       timeoutReached := False\<rparr>,
                  \<lparr>bm_move = m,
                   bm_metrics = \<lparr>positionsEvaluated_m = 0,
                                 thinkingTime = round (now_end perf - now_start perf),
                                 lastMoveScore = Fin 0\<rparr>\<rparr>))
      \<and> (\<forall>n. nodes_visited (getBestMove perf random this board aiPlayer Hard) = Some n
            \<longrightarrow> n = 0))
   \<and> (length board = 4 \<longrightarrow>
      getHardMove perf random this board aiPlayer =
        (case minimax perf this board 0 True aiPlayer NegInf PosInf
                (if length (getAvailableMoves board) > 8 then 2 else 3) of
           Inl e \<Rightarrow> Inl e
         | Inr (this', result) \<Rightarrow>
             Inr (this', \<lparr>hm_move = move result, hm_score = score result\<rparr>)))
   \<and> (length board = 5 \<longrightarrow>
      getHardMove perf random this board aiPlayer =
        (case minimax perf this board 0 True aiPlayer NegInf PosInf 2 of
           Inl e \<Rightarrow> Inl e
         | Inr (this', result) \<Rightarrow>
             Inr (this', \<lparr>hm_move = move result, hm_score = score result\<rparr>)))
   \<and> (6 \<le> length board \<longrightarrow>
      getHardMove perf random this board aiPlayer =
        (case getOptimizedMove random board aiPlayer of
           Inl e \<Rightarrow> Inl e
         | Inr m \<Rightarrow> Inr (this, \<lparr>hm_move = m, hm_score = Fin 0\<rparr>)))"
proof (intro conjI impI allI)
  let ?t = "this\<lparr>positionsEvaluated := 0, startTime := now_start perf, timeoutReached := False\<rparr>"
  {
    assume l: "length board = 3"
    then show eq: "getBestMove perf random this board aiPlayer Hard =
        (case minimax perf ?t board 0 True aiPlayer NegInf PosInf 9 of
           Inl e \<Rightarrow> Inl e
         | Inr (this', result) \<Rightarrow>
             Inr (this', \<lparr>bm_move = move result,
                          bm_metrics = \<lparr>positionsEvaluated_m = positionsEvaluated this',
                                        thinkingTime = round (now_end perf - startTime this'),
                                        lastMoveScore = score result\<rparr>\<rparr>))"
      by (simp add: getBestMove_def getHardMove_def Let_def split: sum.splits)
    fix n assume "nodes_visited (getBestMove perf random this board aiPlayer Hard) = Some n"
    then obtain t' r where "minimax perf ?t board 0 True aiPlayer NegInf PosInf 9 = Inr (t', r)"
      "n = positionsEvaluated t'"
      unfolding eq by (auto simp: nodes_visited_def split: sum.splits)
    then show "1 \<le> n" using minimax_counts[of perf ?t board 0 True aiPlayer NegInf PosInf 9 t' r]
      by simp
  }
  {
    assume l: "3 < length board"
    then show eq: "getBestMove perf random this board aiPlayer Hard =
        (case getOptimizedMove random board aiPlayer of
           Inl e \<Rightarrow> Inl e
         | Inr m \<Rightarrow>
             Inr (?t,
                  \<lparr>bm_move = m,
                   bm_metrics = \<lparr>positionsEvaluated_m = 0,
                                 thinkingTime = round (now_end perf - now_start perf),
                                 lastMoveScore = Fin 0\<rparr>\<rparr>))"
      by (simp add: getBestMove_def Let_def split: sum.splits)
    fix n assume "nodes_visited (getBestMove perf random this board aiPlayer Hard) = Some n"
    then show "n = 0"
      unfolding eq by (auto simp: nodes_visited_def split: sum.splits)
  }
  {
    assume "length board = 4"
    then show "getHardMove perf random this board aiPlayer =
        (case minimax perf this board 0 True aiPlayer NegInf PosInf
                (if length (getAvailableMoves board) > 8 then 2 else 3) of
           Inl e \<Rightarrow> Inl e
         | Inr (this', result) \<Rightarrow>
             Inr (this', \<lparr>hm_move = move result, hm_score = score result\<rparr>))"
      by (simp add: getHardMove_def Let_def)
  }
  {
    assume "length board = 5"
    then show "getHardMove perf random this board aiPlayer =
        (case minimax perf this board 0 True aiPlayer NegInf PosInf 2 of
           Inl e \<Rightarrow> Inl e
         | Inr (this', result) \<Rightarrow>
             Inr (this', \<lparr>hm_move = move result, hm_score = score result\<rparr>))"
      by (simp add: getHardMove_def Let_def)
  }
  {
    assume "6 \<le> length board"
    then show "getHardMove perf random this board aiPlayer =
        (case getOptimizedMove random board aiPlayer of
           Inl e \<Rightarrow> Inl e
         | Inr m \<Rightarrow> Inr (this, \<lparr>hm_move = m, hm_score = Fin 0\<rparr>))"
      by (simp add: getHardMove_def Let_def)
  }
qed

lemma getOptimizedMove_empty4:
  "getOptimizedMove (fixed_random 0) (createEmptyBoard 4) PLAYER_X = Inr (Some \<lparr>row = 2, col = 2\<rparr>)"
  by code_simp

text \<open>
  Claim C1 as stated fails on the empty board of size 4: the hard-mode call visits no
  node of the search and returns the centre, the opening move of the fallback.
\<close>

theorem hard_mode_size4_skips_search:
  "length (createEmptyBoard 4) = 4
   \<and> chosen_move (getBestMove steady_clock (fixed_random 0) new_engine (createEmptyBoard 4)
        PLAYER_X Hard) = Some \<lparr>row = 2, col = 2\<rparr>
   \<and> nodes_visited (getBestMove steady_clock (fixed_random 0) new_engine (createEmptyBoard 4)
        PLAYER_X Hard) = Some 0
   \<and> reported_score (getBestMove steady_clock (fixed_random 0) new_engine (createEmptyBoard 4)
        PLAYER_X Hard) = Some (Fin 0)"
proof -
  have len: "length (createEmptyBoard 4) = 4" by (simp add: createEmptyBoard_def)
  show ?thesis
    by (simp add: len getBestMove_def Let_def getOptimizedMove_empty4 chosen_move_def
          nodes_visited_def reported_score_def)
qed

theorem hard_mode_dispatch_witness:
  "chosen_move (getBestMove steady_clock (fixed_random 0) new_engine (createEmptyBoard 5)
        PLAYER_X Hard) = Some \<lparr>row = 2, col = 2\<rparr>
   \<and> nodes_visited (getBestMove steady_clock (fixed_random 0) new_engine
        [[Some PLAYER_X, Some PLAYER_O, Some PLAYER_X],
         [Some PLAYER_X, Some PLAYER_O, Some PLAYER_O],
         [Some PLAYER_O, Some PLAYER_X, Some PLAYER_X]] PLAYER_X Hard) = Some 1"
proof -
  have o: "getOptimizedMove (fixed_random 0) (createEmptyBoard 5) PLAYER_X
             = Inr (Some \<lparr>row = 2, col = 2\<rparr>)"
    by code_simp
  have len: "length (createEmptyBoard 5) = 5" by (simp add: createEmptyBoard_def)
  have s: "startTime (new_engine\<lparr>positionsEvaluated := 0, startTime := now_start steady_clock,
               timeoutReached := False\<rparr>) = now_start steady_clock"
    by simp
  have g: "isGameOver [[Some PLAYER_X, Some PLAYER_O, Some PLAYER_X],
         [Some PLAYER_X, Some PLAYER_O, Some PLAYER_O],
         [Some PLAYER_O, Some PLAYER_X, Some PLAYER_X]] = Inr True"
    by (simp add: isGameOver_def checkWinner_drawn_board isBoardFull_def)
  show ?thesis
    using hard_mode_dispatch[of "createEmptyBoard 5" steady_clock "fixed_random 0" new_engine PLAYER_X]
      hard_mode_dispatch[of "[[Some PLAYER_X, Some PLAYER_O, Some PLAYER_X],
         [Some PLAYER_X, Some PLAYER_O, Some PLAYER_O],
         [Some PLAYER_O, Some PLAYER_X, Some PLAYER_X]]" steady_clock "fixed_random 0" new_engine PLAYER_X]
    by (simp add: o len chosen_move_def nodes_visited_def
          minimax_game_over[OF within_budget_steady s _ g] evaluateBoard_def checkWinner_drawn_board)
qed
section \<open>The search of the source computes the pruned search\<close>

lemma max_loop_refines:
  assumes child: "\<And>this b al be.
      startTime this = now_start perf \<Longrightarrow> \<not> timeoutReached this \<Longrightarrow> wf_board b \<Longrightarrow>
      \<exists>this'. minimax perf this b (Suc depth) False ai al be maxDepth =
          Inr (this', \<lparr>score = fst (alphabeta b (Suc depth) False ai al be maxDepth),
                       move = snd (alphabeta b (Suc depth) False ai al be maxDepth),
                       positionsEvaluated_r = positionsEvaluated this'\<rparr>)
        \<and> startTime this' = now_start perf \<and> \<not> timeoutReached this'"
    and wf: "wf_board board"
  shows "set ms \<subseteq> set (getAvailableMoves board) \<Longrightarrow> startTime this = now_start perf
      \<Longrightarrow> \<not> timeoutReached this \<Longrightarrow>
      \<exists>this'. minimax_max_loop perf this board depth ai maxDepth ms me bm alpha beta =
          Inr (this', \<lparr>score = fst (alphabeta_max board depth ai maxDepth ms me bm alpha beta),
                       move = snd (alphabeta_max board depth ai maxDepth ms me bm alpha beta),
                       positionsEvaluated_r = positionsEvaluated this'\<rparr>)
        \<and> startTime this' = now_start perf \<and> \<not> timeoutReached this'"
proof (induction ms arbitrary: this me bm alpha)
  case Nil
  then show ?case by simp
next
  case (Cons m ms)
  have m: "m \<in> set (getAvailableMoves board)" using Cons.prems(1) by simp
  have mk: "makeMove board (row m) (col m) ai = Inr (place board m ai)"
    by (rule makeMove_available[OF m])
  have wfc: "wf_board (place board m ai)" by (rule wf_board_place[OF wf])
  from child[OF Cons.prems(2,3) wfc, of alpha beta] obtain t1 where
    c: "minimax perf this (place board m ai) (Suc depth) False ai alpha beta maxDepth =
          Inr (t1, \<lparr>score = fst (alphabeta (place board m ai) (Suc depth) False ai alpha beta maxDepth),
                    move = snd (alphabeta (place board m ai) (Suc depth) False ai alpha beta maxDepth),
                    positionsEvaluated_r = positionsEvaluated t1\<rparr>)"
    and t1: "startTime t1 = now_start perf" "\<not> timeoutReached t1"
    by blast
  let ?s = "fst (alphabeta (place board m ai) (Suc depth) False ai alpha beta maxDepth)"
  show ?case
  proof (cases "beta \<le> max alpha ?s")
    case True
    then show ?thesis
      using Cons.prems(3) mk c t1 by (simp add: Let_def)
  next
    case False
    have sub: "set ms \<subseteq> set (getAvailableMoves board)" using Cons.prems(1) by simp
    define me' where "me' = (if me < ?s then ?s else me)"
    define bm' where "bm' = (if me < ?s then Some m else bm)"
    have l: "minimax_max_loop perf this board depth ai maxDepth (m # ms) me bm alpha beta =
             minimax_max_loop perf t1 board depth ai maxDepth ms me' bm' (max alpha ?s) beta"
      using Cons.prems(3) mk c False by (simp add: Let_def me'_def bm'_def)
    have r: "alphabeta_max board depth ai maxDepth (m # ms) me bm alpha beta =
             alphabeta_max board depth ai maxDepth ms me' bm' (max alpha ?s) beta"
      using False by (simp add: Let_def me'_def bm'_def)
    show ?thesis
      unfolding l r by (rule Cons.IH[OF sub t1])
  qed
qed

lemma min_loop_refines:
  assumes child: "\<And>this b al be.
      startTime this = now_start perf \<Longrightarrow> \<not> timeoutReached this \<Longrightarrow> wf_board b \<Longrightarrow>
      \<exists>this'. minimax perf this b (Suc depth) True ai al be maxDepth =
          Inr (this', \<lparr>score = fst (alphabeta b (Suc depth) True ai al be maxDepth),
                       move = snd (alphabeta b (Suc depth) True ai al be maxDepth),
                       positionsEvaluated_r = positionsEvaluated this'\<rparr>)
        \<and> startTime this' = now_start perf \<and> \<not> timeoutReached this'"
    and wf: "wf_board board"
  shows "set ms \<subseteq> set (getAvailableMoves board) \<Longrightarrow> startTime this = now_start perf
      \<Longrightarrow> \<not> timeoutReached this \<Longrightarrow>
      \<exists>this'. minimax_min_loop perf this board depth ai maxDepth ms me bm alpha beta =
          Inr (this', \<lparr>score = fst (alphabeta_min board depth ai maxDepth ms me bm alpha beta),
                       move = snd (alphabeta_min board depth ai maxDepth ms me bm alpha beta),
                       positionsEvaluated_r = positionsEvaluated this'\<rparr>)
        \<and> startTime this' = now_start perf \<and> \<not> timeoutReached this'"
proof (induction ms arbitrary: this me bm beta)
  case Nil
  then show ?case by simp
next
  case (Cons m ms)
  let ?opp = "getOpponent ai"
  have m: "m \<in> set (getAvailableMoves board)" using Cons.prems(1) by simp
  have mk: "makeMove board (row m) (col m) ?opp = Inr (place board m ?opp)"
    by (rule makeMove_available[OF m])
  have wfc: "wf_board (place board m ?opp)" by (rule wf_board_place[OF wf])
  from child[OF Cons.prems(2,3) wfc, of alpha beta] obtain t1 where
    c: "minimax perf this (place board m ?opp) (Suc depth) True ai alpha beta maxDepth =
          Inr (t1, \<lparr>score = fst (alphabeta (place board m ?opp) (Suc depth) True ai alpha beta maxDepth),
                    move = snd (alphabeta (place board m ?opp) (Suc depth) True ai alpha beta maxDepth),
                    positionsEvaluated_r = positionsEvaluated t1\<rparr>)"
    and t1: "startTime t1 = now_start perf" "\<not> timeoutReached t1"
    by blast
  let ?s = "fst (alphabeta (place board m ?opp) (Suc depth) True ai alpha beta maxDepth)"
  show ?case
  proof (cases "min beta ?s \<le> alpha")
    case True
    then show ?thesis
      using Cons.prems(3) mk c t1 by (simp add: Let_def)
  next
    case False
    have sub: "set ms \<subseteq> set (getAvailableMoves board)" using Cons.prems(1) by simp
    define me' where "me' = (if ?s < me then ?s else me)"
    define bm' where "bm' = (if ?s < me then Some m else bm)"
    have l: "minimax_min_loop perf this board depth ai maxDepth (m # ms) me bm alpha beta =
             minimax_min_loop perf t1 board depth ai maxDepth ms me' bm' alpha (min beta ?s)"
      using Cons.prems(3) mk c False by (simp add: Let_def me'_def bm'_def)
    have r: "alphabeta_min board depth ai maxDepth (m # ms) me bm alpha beta =
             alphabeta_min board depth ai maxDepth ms me' bm' alpha (min beta ?s)"
      using False by (simp add: Let_def me'_def bm'_def)
    show ?thesis
      unfolding l r by (rule Cons.IH[OF sub t1])
  qed
qed

lemma minimax_refines:
  assumes "within_budget perf" "wf_board board"
  shows "startTime this = now_start perf \<Longrightarrow> \<not> timeoutReached this \<Longrightarrow>
      \<exists>this'. minimax perf this board depth isMax ai alpha beta maxDepth =
          Inr (this', \<lparr>score = fst (alphabeta board depth isMax ai alpha beta maxDepth),
                       move = snd (alphabeta board depth isMax ai alpha beta maxDepth),
                       positionsEvaluated_r = positionsEvaluated this'\<rparr>)
        \<and> startTime this' = now_start perf \<and> \<not> timeoutReached this'"
  using assms(2)
proof (induction "maxDepth - depth" arbitrary: depth this board isMax alpha beta)
  case 0
  then have le: "maxDepth \<le> depth" by simp
  have pos: "0 < length board" using "0.prems"(3) by (rule wf_board_pos)
  show ?case
    using "0.prems" le
    by (simp add: minimax_at_limit[OF assms(1)] evaluateBoard_evaluate[OF pos] alphabeta.simps)
next
  case (Suc k)
  then have lt: "depth < maxDepth" by simp
  have pos: "0 < length board" using Suc.prems(3) by (rule wf_board_pos)
  let ?t = "this\<lparr>positionsEvaluated := positionsEvaluated this + 1\<rparr>"
  have t: "startTime ?t = now_start perf" "\<not> timeoutReached ?t" using Suc.prems by simp_all
  have child: "\<exists>this'. minimax perf t b (Suc depth) mx ai al be maxDepth =
          Inr (this', \<lparr>score = fst (alphabeta b (Suc depth) mx ai al be maxDepth),
                       move = snd (alphabeta b (Suc depth) mx ai al be maxDepth),
                       positionsEvaluated_r = positionsEvaluated this'\<rparr>)
        \<and> startTime this' = now_start perf \<and> \<not> timeoutReached this'"
    if "startTime t = now_start perf" "\<not> timeoutReached t" "wf_board b" for t b mx al be
    using Suc.hyps(1)[of "Suc depth" t b mx al be] Suc.hyps(2) that by simp
  have nt: "\<not> now_node perf (Suc (positionsEvaluated this)) - now_start perf > maxThinkingTime"
    using assms(1) by (simp add: within_budget_def not_less)
  show ?case
  proof (cases "terminal board")
    case True
    then show ?thesis
      using Suc.prems lt
      by (simp add: minimax_game_over[OF assms(1)] isGameOver_terminal[OF pos]
            evaluateBoard_evaluate[OF pos] alphabeta.simps Let_def)
  next
    case nterm: False
    show ?thesis
    proof (cases "getAvailableMoves board = []")
      case True
      then show ?thesis
        using Suc.prems lt nterm
        by (simp add: minimax_no_moves[OF assms(1)] isGameOver_terminal[OF pos] alphabeta.simps)
    next
      case False
      have unfold: "minimax perf this board depth isMax ai alpha beta maxDepth =
         (if isMax then minimax_max_loop perf ?t board depth ai maxDepth (getAvailableMoves board)
                          NegInf None alpha beta
          else minimax_min_loop perf ?t board depth ai maxDepth (getAvailableMoves board)
                          PosInf None alpha beta)"
        using lt nterm False nt Suc.prems(1)
        by (subst minimax.simps) (simp add: Let_def isGameOver_terminal[OF pos])
      have ab: "alphabeta board depth isMax ai alpha beta maxDepth =
         (if isMax then alphabeta_max board depth ai maxDepth (getAvailableMoves board)
                          NegInf None alpha beta
          else alphabeta_min board depth ai maxDepth (getAvailableMoves board)
                          PosInf None alpha beta)"
        using lt nterm False by (subst alphabeta.simps) simp
      show ?thesis
      proof (cases isMax)
        case True
        show ?thesis
          unfolding unfold ab using True
          max_loop_refines[where perf = perf and depth = depth and ai = ai and maxDepth = maxDepth,
              OF child Suc.prems(3) subset_refl t, of NegInf None alpha beta]
          by simp
      next
        case False
        show ?thesis
          unfolding unfold ab using False
          min_loop_refines[where perf = perf and depth = depth and ai = ai and maxDepth = maxDepth,
              OF child Suc.prems(3) subset_refl t, of PosInf None alpha beta]
          by simp
      qed
    qed
  qed
qed
section \<open>The pruned search against plain minimax\<close>

lemma NegInf_least [simp]: "NegInf \<le> (x::number)"
  by (cases x) simp_all

lemma PosInf_greatest [simp]: "(x::number) \<le> PosInf"
  by (cases x) simp_all

lemma Fin_le_iff [simp]: "Fin a \<le> Fin b \<longleftrightarrow> a \<le> b"
  by simp

lemma Fin_less_iff [simp]: "Fin a < Fin b \<longleftrightarrow> a < b"
  by (auto simp: less_number_def)

lemma number_less_simps [simp]:
  "NegInf < Fin a" "Fin a < PosInf" "NegInf < PosInf"
  "\<not> Fin a < NegInf" "\<not> PosInf < Fin a" "\<not> PosInf < NegInf"
  "\<not> x < NegInf" "\<not> PosInf < x"
  by (simp_all add: less_number_def)

lemma alphabeta_max_ge: "me \<le> fst (alphabeta_max board d ai md ms me bm alpha beta)"
proof (induction ms arbitrary: me bm alpha)
  case Nil
  then show ?case by simp
next
  case (Cons m ms)
  let ?s = "fst (alphabeta (place board m ai) (d + 1) False ai alpha beta md)"
  have "me \<le> (if me < ?s then ?s else me)" by (simp add: less_imp_le)
  then show ?case
    using Cons.IH[of "if me < ?s then ?s else me" "if me < ?s then Some m else bm" "max alpha ?s"]
    by (auto simp: Let_def)
qed

lemma alphabeta_min_le: "fst (alphabeta_min board d ai md ms me bm alpha beta) \<le> me"
proof (induction ms arbitrary: me bm beta)
  case Nil
  then show ?case by simp
next
  case (Cons m ms)
  let ?s = "fst (alphabeta (place board m (getOpponent ai)) (d + 1) True ai alpha beta md)"
  have "(if ?s < me then ?s else me) \<le> me" by (simp add: less_imp_le)
  then show ?case
    using Cons.IH[of "if ?s < me then ?s else me" "if ?s < me then Some m else bm" "min beta ?s"]
    by (auto simp: Let_def)
qed

text \<open>The pruned maximising loop against the plain maximum of the children's values.\<close>

lemma alphabeta_max_bounds:
  assumes child: "\<And>b al be. al < be \<Longrightarrow>
      (fst (alphabeta b (Suc d) False ai al be md) < be
          \<longrightarrow> minimax_value b (Suc d) False ai md \<le> fst (alphabeta b (Suc d) False ai al be md))
    \<and> (al < fst (alphabeta b (Suc d) False ai al be md)
          \<longrightarrow> fst (alphabeta b (Suc d) False ai al be md) \<le> minimax_value b (Suc d) False ai md)"
  shows "alpha < beta \<Longrightarrow> me \<le> alpha \<Longrightarrow>
    (fst (alphabeta_max board d ai md ms me bm alpha beta) < beta
       \<longrightarrow> maxs (map (\<lambda>m. minimax_value (place board m ai) (Suc d) False ai md) ms)
             \<le> fst (alphabeta_max board d ai md ms me bm alpha beta))
  \<and> (alpha < fst (alphabeta_max board d ai md ms me bm alpha beta)
       \<longrightarrow> fst (alphabeta_max board d ai md ms me bm alpha beta)
             \<le> maxs (map (\<lambda>m. minimax_value (place board m ai) (Suc d) False ai md) ms))"
proof (induction ms arbitrary: me bm alpha)
  case Nil
  then show ?case by auto
next
  case (Cons m ms)
  let ?cv = "\<lambda>m. minimax_value (place board m ai) (Suc d) False ai md"
  let ?s = "fst (alphabeta (place board m ai) (Suc d) False ai alpha beta md)"
  let ?V = "maxs (map ?cv ms)"
  have ca: "?s < beta \<Longrightarrow> ?cv m \<le> ?s" and cb: "alpha < ?s \<Longrightarrow> ?s \<le> ?cv m"
    using child[OF Cons.prems(1), of "place board m ai"] by blast+
  define me' where "me' = (if me < ?s then ?s else me)"
  define bm' where "bm' = (if me < ?s then Some m else bm)"
  have me': "me' = max me ?s" unfolding me'_def by (cases "me < ?s") (auto simp: max_def)
  show ?case
  proof (cases "beta \<le> max alpha ?s")
    case True
    then have r: "fst (alphabeta_max board d ai md (m # ms) me bm alpha beta) = me'"
      by (simp add: Let_def me'_def)
    have sb: "beta \<le> ?s" using True Cons.prems(1) by (simp add: max_def split: if_splits)
    have "me \<le> ?s" using Cons.prems sb by order
    then have "me' = ?s" using me' by (simp add: max_absorb2)
    moreover have "alpha < ?s" using sb Cons.prems(1) by simp
    ultimately show ?thesis
      unfolding r using sb cb by (auto intro: max.coboundedI1)
  next
    case False
    then have r: "fst (alphabeta_max board d ai md (m # ms) me bm alpha beta) =
        fst (alphabeta_max board d ai md ms me' bm' (max alpha ?s) beta)"
      by (simp add: Let_def me'_def bm'_def)
    let ?r = "fst (alphabeta_max board d ai md ms me' bm' (max alpha ?s) beta)"
    have a': "max alpha ?s < beta" using False by (simp add: not_le)
    have m': "me' \<le> max alpha ?s" using Cons.prems(2) me' by (auto simp: max_def)
    from Cons.IH[OF a' m', of bm'] have
      ia: "?r < beta \<Longrightarrow> ?V \<le> ?r" and ib: "max alpha ?s < ?r \<Longrightarrow> ?r \<le> ?V" by blast+
    have ge: "me' \<le> ?r" by (rule alphabeta_max_ge[where d = d, simplified])
    have "max (?cv m) ?V \<le> ?r" if lt: "?r < beta"
    proof -
      have "?s \<le> ?r" using ge me' by simp
      then have "?cv m \<le> ?r" using ca lt by (meson le_less_trans order_trans)
      then show ?thesis using ia[OF lt] by simp
    qed
    moreover have "?r \<le> max (?cv m) ?V" if gt: "alpha < ?r"
    proof (cases "max alpha ?s < ?r")
      case True
      then show ?thesis using ib by (simp add: max.coboundedI2)
    next
      case False
      then have "?r \<le> ?s" using gt by (simp add: max_def not_less split: if_splits)
      moreover have "alpha < ?s" using gt \<open>?r \<le> ?s\<close> by (rule less_le_trans)
      ultimately show ?thesis using cb by (meson max.coboundedI1 order_trans)
    qed
    ultimately show ?thesis unfolding r by simp
  qed
qed

lemma alphabeta_min_bounds:
  assumes child: "\<And>b al be. al < be \<Longrightarrow>
      (fst (alphabeta b (Suc d) True ai al be md) < be
          \<longrightarrow> minimax_value b (Suc d) True ai md \<le> fst (alphabeta b (Suc d) True ai al be md))
    \<and> (al < fst (alphabeta b (Suc d) True ai al be md)
          \<longrightarrow> fst (alphabeta b (Suc d) True ai al be md) \<le> minimax_value b (Suc d) True ai md)"
  shows "alpha < beta \<Longrightarrow> beta \<le> me \<Longrightarrow>
    (fst (alphabeta_min board d ai md ms me bm alpha beta) < beta
       \<longrightarrow> mins (map (\<lambda>m. minimax_value (place board m (getOpponent ai)) (Suc d) True ai md) ms)
             \<le> fst (alphabeta_min board d ai md ms me bm alpha beta))
  \<and> (alpha < fst (alphabeta_min board d ai md ms me bm alpha beta)
       \<longrightarrow> fst (alphabeta_min board d ai md ms me bm alpha beta)
             \<le> mins (map (\<lambda>m. minimax_value (place board m (getOpponent ai)) (Suc d) True ai md) ms))"
proof (induction ms arbitrary: me bm beta)
  case Nil
  then show ?case by auto
next
  case (Cons m ms)
  let ?cv = "\<lambda>m. minimax_value (place board m (getOpponent ai)) (Suc d) True ai md"
  let ?s = "fst (alphabeta (place board m (getOpponent ai)) (Suc d) True ai alpha beta md)"
  let ?V = "mins (map ?cv ms)"
  have ca: "?s < beta \<Longrightarrow> ?cv m \<le> ?s" and cb: "alpha < ?s \<Longrightarrow> ?s \<le> ?cv m"
    using child[OF Cons.prems(1), of "place board m (getOpponent ai)"] by blast+
  define me' where "me' = (if ?s < me then ?s else me)"
  define bm' where "bm' = (if ?s < me then Some m else bm)"
  have me': "me' = min me ?s" unfolding me'_def by (cases "?s < me") (auto simp: min_def)
  show ?case
  proof (cases "min beta ?s \<le> alpha")
    case True
    then have r: "fst (alphabeta_min board d ai md (m # ms) me bm alpha beta) = me'"
      by (simp add: Let_def me'_def)
    have sa: "?s \<le> alpha" using True Cons.prems(1) by (simp add: min_def split: if_splits)
    have "?s \<le> me" using Cons.prems sa by order
    then have "me' = ?s" using me' by (simp add: min_absorb2)
    moreover have "?s < beta" using sa Cons.prems(1) by simp
    ultimately show ?thesis
      unfolding r using sa ca by (auto intro: min.coboundedI1)
  next
    case False
    then have r: "fst (alphabeta_min board d ai md (m # ms) me bm alpha beta) =
        fst (alphabeta_min board d ai md ms me' bm' alpha (min beta ?s))"
      by (simp add: Let_def me'_def bm'_def)
    let ?r = "fst (alphabeta_min board d ai md ms me' bm' alpha (min beta ?s))"
    have a': "alpha < min beta ?s" using False by (simp add: not_le)
    have m': "min beta ?s \<le> me'" using Cons.prems(2) me' by (auto simp: min_def)
    from Cons.IH[OF a' m', of bm'] have
      ia: "?r < min beta ?s \<Longrightarrow> ?V \<le> ?r" and ib: "alpha < ?r \<Longrightarrow> ?r \<le> ?V" by blast+
    have le: "?r \<le> me'" by (rule alphabeta_min_le[where d = d, simplified])
    have "?r \<le> min (?cv m) ?V" if gt: "alpha < ?r"
    proof -
      have "?r \<le> ?s" using le me' by simp
      then have "?r \<le> ?cv m" using cb gt by (meson less_le_trans order_trans)
      then show ?thesis using ib[OF gt] by simp
    qed
    moreover have "min (?cv m) ?V \<le> ?r" if lt: "?r < beta"
    proof (cases "?r < min beta ?s")
      case True
      then show ?thesis using ia by (simp add: min.coboundedI2)
    next
      case False
      then have "?s \<le> ?r" using lt by (simp add: min_def not_less split: if_splits)
      moreover have "?s < beta" using \<open>?s \<le> ?r\<close> lt by (rule le_less_trans)
      ultimately show ?thesis using ca by (meson min.coboundedI1 order_trans)
    qed
    ultimately show ?thesis unfolding r by simp
  qed
qed

lemma PosInf_le_iff [simp]: "PosInf \<le> (x::number) \<longleftrightarrow> x = PosInf"
  by (cases x) simp_all

lemma le_NegInf_iff [simp]: "(x::number) \<le> NegInf \<longleftrightarrow> x = NegInf"
  by (cases x) simp_all

lemma alphabeta_bounds:
  "alpha < beta \<Longrightarrow>
     (fst (alphabeta board d mx ai alpha beta md) < beta
        \<longrightarrow> minimax_value board d mx ai md \<le> fst (alphabeta board d mx ai alpha beta md))
   \<and> (alpha < fst (alphabeta board d mx ai alpha beta md)
        \<longrightarrow> fst (alphabeta board d mx ai alpha beta md) \<le> minimax_value board d mx ai md)"
proof (induction "md - d" arbitrary: d board mx alpha beta)
  case 0
  then show ?case by (simp add: alphabeta.simps minimax_value.simps)
next
  case (Suc k)
  then have lt: "d < md" by simp
  have child: "(fst (alphabeta b (Suc d) mx' ai al be md) < be
          \<longrightarrow> minimax_value b (Suc d) mx' ai md \<le> fst (alphabeta b (Suc d) mx' ai al be md))
    \<and> (al < fst (alphabeta b (Suc d) mx' ai al be md)
          \<longrightarrow> fst (alphabeta b (Suc d) mx' ai al be md) \<le> minimax_value b (Suc d) mx' ai md)"
    if "al < be" for b mx' al be
    using Suc.hyps(1)[of "Suc d" al be b mx'] Suc.hyps(2) that by simp
  show ?case
  proof (cases "terminal board \<or> getAvailableMoves board = []")
    case True
    then show ?thesis using lt by (auto simp: alphabeta.simps minimax_value.simps Let_def)
  next
    case False
    show ?thesis
    proof (cases mx)
      case True
      have ab: "alphabeta board d mx ai alpha beta md =
          alphabeta_max board d ai md (getAvailableMoves board) NegInf None alpha beta"
        using lt False True by (subst alphabeta.simps) simp
      have mv: "minimax_value board d mx ai md =
          maxs (map (\<lambda>m. minimax_value (place board m ai) (Suc d) False ai md)
                  (getAvailableMoves board))"
        using lt False True by (subst minimax_value.simps) simp
      show ?thesis
        unfolding ab mv
        by (rule alphabeta_max_bounds[OF child Suc.prems]) simp_all
    next
      case mn: False
      have ab: "alphabeta board d mx ai alpha beta md =
          alphabeta_min board d ai md (getAvailableMoves board) PosInf None alpha beta"
        using lt False mn by (subst alphabeta.simps) simp
      have mv: "minimax_value board d mx ai md =
          mins (map (\<lambda>m. minimax_value (place board m (getOpponent ai)) (Suc d) True ai md)
                  (getAvailableMoves board))"
        using lt False mn by (subst minimax_value.simps) simp
      show ?thesis
        unfolding ab mv
        by (rule alphabeta_min_bounds[OF child Suc.prems]) simp_all
    qed
  qed
qed

text \<open>
  The loop at the root, where \<^verbatim>\<open>beta\<close> is infinite and \<^verbatim>\<open>alpha\<close> follows
  \<^verbatim>\<open>maxEval\<close>: it returns the maximum of the children's values and keeps the first
  move that reaches it.
\<close>

lemma alphabeta_max_root:
  "me < PosInf \<Longrightarrow>
   alphabeta_max board d ai md ms me bm me PosInf =
     (max me (maxs (map (\<lambda>m. minimax_value (place board m ai) (Suc d) False ai md) ms)),
      if me < maxs (map (\<lambda>m. minimax_value (place board m ai) (Suc d) False ai md) ms)
      then find (\<lambda>m. minimax_value (place board m ai) (Suc d) False ai md
                        = maxs (map (\<lambda>m. minimax_value (place board m ai) (Suc d) False ai md) ms)) ms
      else bm)"
proof (induction ms arbitrary: me bm)
  case Nil
  then show ?case by (simp add: max_absorb1)
next
  case (Cons m ms)
  let ?cv = "\<lambda>m. minimax_value (place board m ai) (Suc d) False ai md"
  let ?s = "fst (alphabeta (place board m ai) (Suc d) False ai me PosInf md)"
  let ?V = "maxs (map ?cv ms)"
  have ca: "?s < PosInf \<Longrightarrow> ?cv m \<le> ?s" and cb: "me < ?s \<Longrightarrow> ?s \<le> ?cv m"
    using alphabeta_bounds[OF Cons.prems, of "place board m ai" "Suc d" False ai md] by blast+
  show ?case
  proof (cases "me < ?s")
    case True
    show ?thesis
    proof (cases "?s = PosInf")
      case inf: True
      then have cv: "?cv m = PosInf" using cb[OF True] by (metis PosInf_greatest antisym)
      have "alphabeta_max board d ai md (m # ms) me bm me PosInf = (PosInf, Some m)"
        using True inf by (simp add: Let_def)
      moreover have "max (?cv m) ?V = PosInf" using cv by (simp add: max_absorb1)
      ultimately show ?thesis using Cons.prems cv by (simp add: max_absorb2)
    next
      case fin: False
      then have sl: "?s < PosInf" by (cases ?s) simp_all
      have cv: "?cv m = ?s" using ca[OF sl] cb[OF True] by (rule antisym)
      have step: "alphabeta_max board d ai md (m # ms) me bm me PosInf =
          alphabeta_max board d ai md ms ?s (Some m) ?s PosInf"
        using True sl fin by (simp add: Let_def max_absorb2 less_imp_le not_le)
      have meV: "me < max ?s ?V" using True by (simp add: less_max_iff_disj)
      show ?thesis
      proof (cases "?s < ?V")
        case lt: True
        then have "max ?s ?V = ?V" "?s \<noteq> ?V" by (simp_all add: max_absorb2 less_imp_le)
        then show ?thesis
          unfolding step Cons.IH[OF sl] using lt meV cv True
          by (simp add: max_absorb2 less_imp_le)
      next
        case ge: False
        then have "max ?s ?V = ?s" by (simp add: max_absorb1 not_less)
        then show ?thesis
          unfolding step Cons.IH[OF sl] using ge meV cv True
          by (simp add: max_absorb2 less_imp_le)
      qed
    qed
  next
    case False
    then have sle: "?s \<le> me" by (simp add: not_less)
    then have sl: "?s < PosInf" using Cons.prems by (rule le_less_trans)
    have cvle: "?cv m \<le> me" using ca[OF sl] sle by (rule order_trans)
    have ne: "me \<noteq> PosInf" using Cons.prems by auto
    have step: "alphabeta_max board d ai md (m # ms) me bm me PosInf =
          alphabeta_max board d ai md ms me bm me PosInf"
      using False sle ne by (simp add: Let_def max_absorb1)
    have eq1: "max me (max (?cv m) ?V) = max me ?V"
      using cvle by (simp add: max.assoc[symmetric] max_absorb1)
    show ?thesis
    proof (cases "me < ?V")
      case True
      have "?cv m < ?V" using cvle True by (rule le_less_trans)
      then have "max (?cv m) ?V = ?V" "?cv m \<noteq> ?V" by (simp_all add: max_absorb2 less_imp_le)
      then show ?thesis
        unfolding step Cons.IH[OF Cons.prems] using True eq1 by simp
    next
      case nlt: False
      then have "\<not> me < max (?cv m) ?V" using cvle by (simp add: not_less)
      then show ?thesis
        unfolding step Cons.IH[OF Cons.prems] using nlt eq1 by simp
    qed
  qed
qed

lemma maxs_less_PosInf: "\<forall>x \<in> set xs. x < PosInf \<Longrightarrow> maxs xs < PosInf"
  by (induction xs) simp_all

lemma maxs_greater_NegInf: "xs \<noteq> [] \<Longrightarrow> \<forall>x \<in> set xs. NegInf < x \<Longrightarrow> NegInf < maxs xs"
  by (cases xs) (simp_all add: less_max_iff_disj)

lemma mins_greater_NegInf: "\<forall>x \<in> set xs. NegInf < x \<Longrightarrow> NegInf < mins xs"
  by (induction xs) simp_all

lemma mins_less_PosInf: "xs \<noteq> [] \<Longrightarrow> \<forall>x \<in> set xs. x < PosInf \<Longrightarrow> mins xs < PosInf"
  by (cases xs) (simp_all add: min_less_iff_disj)

lemma minimax_value_finite:
  "NegInf < minimax_value board d mx ai md \<and> minimax_value board d mx ai md < PosInf"
proof (induction "md - d" arbitrary: d board mx)
  case 0
  then show ?case by (simp add: minimax_value.simps)
next
  case (Suc k)
  then have lt: "d < md" by simp
  have child: "NegInf < minimax_value b (Suc d) mx' ai md \<and> minimax_value b (Suc d) mx' ai md < PosInf"
    for b mx'
    using Suc.hyps(1)[of "Suc d" b mx'] Suc.hyps(2) by simp
  show ?case
  proof (cases "terminal board \<or> getAvailableMoves board = []")
    case True
    then show ?thesis using lt by (auto simp: minimax_value.simps Let_def)
  next
    case False
    then have ne: "getAvailableMoves board \<noteq> []" by simp
    show ?thesis
    proof (cases mx)
      case True
      have mv: "minimax_value board d mx ai md =
          maxs (map (\<lambda>m. minimax_value (place board m ai) (Suc d) False ai md)
                  (getAvailableMoves board))"
        using lt False True by (subst minimax_value.simps) simp
      show ?thesis
        unfolding mv using child ne
        by (intro conjI maxs_less_PosInf maxs_greater_NegInf) auto
    next
      case mn: False
      have mv: "minimax_value board d mx ai md =
          mins (map (\<lambda>m. minimax_value (place board m (getOpponent ai)) (Suc d) True ai md)
                  (getAvailableMoves board))"
        using lt False mn by (subst minimax_value.simps) simp
      show ?thesis
        unfolding mv using child ne
        by (intro conjI mins_less_PosInf mins_greater_NegInf) auto
    qed
  qed
qed

text \<open>
  The search from the root: its score is the minimax value of the position, and its
  move is the first available move whose resulting position has that value.
\<close>

lemma alphabeta_root:
  assumes "\<not> terminal board" "getAvailableMoves board \<noteq> []" "0 < md"
  shows "alphabeta board 0 True ai NegInf PosInf md =
     (minimax_value board 0 True ai md,
      find (\<lambda>m. minimax_value (place board m ai) (Suc 0) False ai md
                   = minimax_value board 0 True ai md) (getAvailableMoves board))"
proof -
  let ?cv = "\<lambda>m. minimax_value (place board m ai) (Suc 0) False ai md"
  have ab: "alphabeta board 0 True ai NegInf PosInf md =
          alphabeta_max board 0 ai md (getAvailableMoves board) NegInf None NegInf PosInf"
    using assms by (subst alphabeta.simps) simp
  have mv: "minimax_value board 0 True ai md = maxs (map ?cv (getAvailableMoves board))"
    using assms by (subst minimax_value.simps) simp
  have "NegInf < maxs (map ?cv (getAvailableMoves board))"
    using minimax_value_finite[of board 0 True ai md] mv by simp
  then show ?thesis
    unfolding ab mv by (simp add: alphabeta_max_root max_absorb2)
qed

lemma getBestMove_hard_3x3:
  assumes "within_budget perf" "wf_board board" "length board = 3"
  shows "\<exists>this'. getBestMove perf random this board ai Hard =
      Inr (this', \<lparr>bm_move = snd (alphabeta board 0 True ai NegInf PosInf 9),
                   bm_metrics = \<lparr>positionsEvaluated_m = positionsEvaluated this',
                                 thinkingTime = round (now_end perf - now_start perf),
                                 lastMoveScore = fst (alphabeta board 0 True ai NegInf PosInf 9)\<rparr>\<rparr>)"
proof -
  let ?t = "this\<lparr>positionsEvaluated := 0, startTime := now_start perf, timeoutReached := False\<rparr>"
  have "startTime ?t = now_start perf" "\<not> timeoutReached ?t" by simp_all
  from minimax_refines[OF assms(1,2) this, of 0 True ai NegInf PosInf 9]
  obtain t' where
    "minimax perf ?t board 0 True ai NegInf PosInf 9 =
       Inr (t', \<lparr>score = fst (alphabeta board 0 True ai NegInf PosInf 9),
                 move = snd (alphabeta board 0 True ai NegInf PosInf 9),
                 positionsEvaluated_r = positionsEvaluated t'\<rparr>)"
    "startTime t' = now_start perf"
    by blast
  then show ?thesis
    using assms(3) by (simp add: getBestMove_def getHardMove_def Let_def)
qed
section \<open>Determinism of hard mode\<close>

lemma no_moves_full:
  assumes "wf_board board" "getAvailableMoves board = []"
  shows "isBoardFull board"
proof -
  have "board ! r ! c \<noteq> None" if "r < length board" "c < length (board ! r)" for r c
  proof
    assume n: "board ! r ! c = None"
    have lr: "length (board ! r) = length board"
      using assms(1) that(1) by (simp add: wf_board_def list_all_length)
    have "\<lparr>row = int r, col = int c\<rparr> \<in> set (getAvailableMoves board)"
      using that lr n by (simp add: available_iff cell_at_def)
    then show False using assms(2) by simp
  qed
  then show ?thesis by (simp add: isBoardFull_def list_all_length)
qed

lemma not_terminal_moves:
  assumes "wf_board board" "\<not> terminal board"
  shows "getAvailableMoves board \<noteq> []"
  using assms no_moves_full by (auto simp: terminal_def)

text \<open>
  Claim C9, as amended. On a well-formed board of size 3, two hard-mode calls that stay
  within the time budget return the same move and the same score, whatever the clocks,
  the random draws and the engine's previous state; when the game is not over the score
  is the best minimax value among the available moves, and the move is the first one,
  in the order of \<^verbatim>\<open>getAvailableMoves\<close>, that reaches it.
\<close>

theorem hard_mode_deterministic_3x3:
  assumes "wf_board board" and "length board = 3"
    and "within_budget perf1" and "within_budget perf2"
  shows "chosen_move (getBestMove perf1 random1 this1 board aiPlayer Hard)
           = chosen_move (getBestMove perf2 random2 this2 board aiPlayer Hard)
       \<and> reported_score (getBestMove perf1 random1 this1 board aiPlayer Hard)
           = reported_score (getBestMove perf2 random2 this2 board aiPlayer Hard)
       \<and> (isGameOver board = Inr False \<longrightarrow>
            reported_score (getBestMove perf1 random1 this1 board aiPlayer Hard)
              = Some (maxs (map (\<lambda>m. minimax_value (place board m aiPlayer) 1 False aiPlayer 9)
                              (getAvailableMoves board)))
          \<and> chosen_move (getBestMove perf1 random1 this1 board aiPlayer Hard)
              = find (\<lambda>m. minimax_value (place board m aiPlayer) 1 False aiPlayer 9
                           = maxs (map (\<lambda>m. minimax_value (place board m aiPlayer) 1 False aiPlayer 9)
                                     (getAvailableMoves board)))
                  (getAvailableMoves board))"
proof -
  let ?ab = "alphabeta board 0 True aiPlayer NegInf PosInf 9"
  have r1: "chosen_move (getBestMove perf1 random1 this1 board aiPlayer Hard) = snd ?ab"
    "reported_score (getBestMove perf1 random1 this1 board aiPlayer Hard) = Some (fst ?ab)"
    using getBestMove_hard_3x3[OF assms(3,1,2), of random1 this1 aiPlayer]
    by (auto simp: chosen_move_def reported_score_def)
  have r2: "chosen_move (getBestMove perf2 random2 this2 board aiPlayer Hard) = snd ?ab"
    "reported_score (getBestMove perf2 random2 this2 board aiPlayer Hard) = Some (fst ?ab)"
    using getBestMove_hard_3x3[OF assms(4,1,2), of random2 this2 aiPlayer]
    by (auto simp: chosen_move_def reported_score_def)
  have "fst ?ab = maxs (map (\<lambda>m. minimax_value (place board m aiPlayer) 1 False aiPlayer 9)
                              (getAvailableMoves board))
      \<and> snd ?ab = find (\<lambda>m. minimax_value (place board m aiPlayer) 1 False aiPlayer 9
                           = maxs (map (\<lambda>m. minimax_value (place board m aiPlayer) 1 False aiPlayer 9)
                                     (getAvailableMoves board)))
                  (getAvailableMoves board)"
    if "isGameOver board = Inr False"
  proof -
    have nt: "\<not> terminal board"
      using that isGameOver_terminal[OF wf_board_pos[OF assms(1)]] by simp
    have ne: "getAvailableMoves board \<noteq> []" by (rule not_terminal_moves[OF assms(1) nt])
    have mv: "minimax_value board 0 True aiPlayer 9 =
        maxs (map (\<lambda>m. minimax_value (place board m aiPlayer) 1 False aiPlayer 9)
               (getAvailableMoves board))"
      using nt ne by (subst minimax_value.simps) simp
    show ?thesis
      using alphabeta_root[OF nt ne, of 9 aiPlayer] mv by simp
  qed
  then show ?thesis using r1 r2 by simp
qed

lemma getOptimizedMove_corners:
  "getOptimizedMove random
      [[None, None, None, None], [None, None, None, None],
       [None, None, Some PLAYER_O, None], [None, None, None, None]] PLAYER_X
     = Inr (random_element
         [\<lparr>row = 0, col = 0\<rparr>, \<lparr>row = 0, col = 3\<rparr>, \<lparr>row = 3, col = 0\<rparr>, \<lparr>row = 3, col = 3\<rparr>]
         (random 0))"
proof -
  let ?b = "[[None, None, None, None], [None, None, None, None],
       [None, None, Some PLAYER_O, None], [None, None, None, None]]"
  have a: "length (getAvailableMoves ?b) = 15" by code_simp
  have w: "winning_move_loop ?b PLAYER_X (getAvailableMoves ?b) = Inr None" by code_simp
  have bl: "blocking_move_loop ?b PLAYER_X (getOpponent PLAYER_X) (getAvailableMoves ?b) = Inr None"
    by code_simp
  have s: "findStrategicMoves ?b PLAYER_X (getAvailableMoves ?b) = Inr []" by code_simp
  have len: "length ?b = 4" by simp
  have c: "\<not> isValidMove ?b (row (getCenterPosition 4)) (col (getCenterPosition 4))"
    by code_simp
  have k: "filter (\<lambda>pos. isValidMove ?b (row pos) (col pos)) (getCornerPositions 4)
      = [\<lparr>row = 0, col = 0\<rparr>, \<lparr>row = 0, col = 3\<rparr>, \<lparr>row = 3, col = 0\<rparr>, \<lparr>row = 3, col = 3\<rparr>]"
    by code_simp
  show ?thesis
    by (simp only: getOptimizedMove_def Let_def len a w bl s c k) simp
qed

text \<open>
  Claim C9 as stated fails on a board of size 4: with the centre taken and no win or
  block at hand, the move is a corner drawn at random, so two calls on the same board,
  neither of which hits the time budget, return different moves.
\<close>

theorem hard_mode_random_on_size4:
  "chosen_move (getBestMove steady_clock (fixed_random 0) new_engine
      [[None, None, None, None], [None, None, None, None],
       [None, None, Some PLAYER_O, None], [None, None, None, None]] PLAYER_X Hard)
     = Some \<lparr>row = 0, col = 0\<rparr>
   \<and> chosen_move (getBestMove steady_clock (fixed_random (1 / 2)) new_engine
      [[None, None, None, None], [None, None, None, None],
       [None, None, Some PLAYER_O, None], [None, None, None, None]] PLAYER_X Hard)
     = Some \<lparr>row = 3, col = 0\<rparr>
   \<and> nodes_visited (getBestMove steady_clock (fixed_random 0) new_engine
      [[None, None, None, None], [None, None, None, None],
       [None, None, Some PLAYER_O, None], [None, None, None, None]] PLAYER_X Hard) = Some 0
   \<and> nodes_visited (getBestMove steady_clock (fixed_random (1 / 2)) new_engine
      [[None, None, None, None], [None, None, None, None],
       [None, None, Some PLAYER_O, None], [None, None, None, None]] PLAYER_X Hard) = Some 0"
  by (simp add: getBestMove_def Let_def getOptimizedMove_corners chosen_move_def
        nodes_visited_def random_element_def fixed_random_def)

theorem hard_mode_deterministic_3x3_witness:
  "chosen_move (getBestMove steady_clock (fixed_random 0) new_engine
      [[Some PLAYER_X, Some PLAYER_O, Some PLAYER_X],
       [Some PLAYER_O, Some PLAYER_X, Some PLAYER_O],
       [None, None, None]] PLAYER_X Hard)
     = chosen_move (getBestMove steady_clock (fixed_random (1 / 2)) new_engine
      [[Some PLAYER_X, Some PLAYER_O, Some PLAYER_X],
       [Some PLAYER_O, Some PLAYER_X, Some PLAYER_O],
       [None, None, None]] PLAYER_X Hard)
   \<and> reported_score (getBestMove steady_clock (fixed_random 0) new_engine
      [[Some PLAYER_X, Some PLAYER_O, Some PLAYER_X],
       [Some PLAYER_O, Some PLAYER_X, Some PLAYER_O],
       [None, None, None]] PLAYER_X Hard)
     = reported_score (getBestMove steady_clock (fixed_random (1 / 2)) new_engine
      [[Some PLAYER_X, Some PLAYER_O, Some PLAYER_X],
       [Some PLAYER_O, Some PLAYER_X, Some PLAYER_O],
       [None, None, None]] PLAYER_X Hard)
   \<and> reported_score (getBestMove steady_clock (fixed_random 0) new_engine
      [[Some PLAYER_X, Some PLAYER_O, Some PLAYER_X],
       [Some PLAYER_O, Some PLAYER_X, Some PLAYER_O],
       [None, None, None]] PLAYER_X Hard) = Some (Fin 9)
   \<and> chosen_move (getBestMove steady_clock (fixed_random 0) new_engine
      [[Some PLAYER_X, Some PLAYER_O, Some PLAYER_X],
       [Some PLAYER_O, Some PLAYER_X, Some PLAYER_O],
       [None, None, None]] PLAYER_X Hard) = Some \<lparr>row = 2, col = 0\<rparr>"
proof -
  let ?b = "[[Some PLAYER_X, Some PLAYER_O, Some PLAYER_X],
       [Some PLAYER_O, Some PLAYER_X, Some PLAYER_O],
       [None, None, None]]"
  have wf: "wf_board ?b" by (simp add: wf_board_def)
  have len: "length ?b = 3" by simp
  have go: "(isGameOver ?b = Inr False) = True" by code_simp
  have v: "maxs (map (\<lambda>m. minimax_value (place ?b m PLAYER_X) 1 False PLAYER_X 9)
                  (getAvailableMoves ?b)) = Fin 9"
    by code_simp
  have f: "find (\<lambda>m. minimax_value (place ?b m PLAYER_X) 1 False PLAYER_X 9 = Fin 9)
                  (getAvailableMoves ?b) = Some \<lparr>row = 2, col = 0\<rparr>"
    by code_simp
  show ?thesis
    using hard_mode_deterministic_3x3[OF wf len within_budget_steady within_budget_steady,
        of "fixed_random 0" new_engine PLAYER_X "fixed_random (1 / 2)" new_engine]
    unfolding go v f simp_thms .
qed
section \<open>Positions from which the hard mode cannot lose\<close>

lemma safe_some_iff:
  "safe_some n board ai ms \<longleftrightarrow> (\<exists>m \<in> set ms. safe n (place board m ai) False ai)"
  by (induction ms) auto

lemma safe_every_iff:
  "safe_every n board ai ms \<longleftrightarrow> (\<forall>m \<in> set ms. safe n (place board m (getOpponent ai)) True ai)"
  by (induction ms) auto

lemma Fin0_le_maxs: "Fin 0 \<le> maxs xs \<longleftrightarrow> (\<exists>x \<in> set xs. Fin 0 \<le> x)"
  by (induction xs) (auto simp: le_max_iff_disj)

lemma Fin0_le_mins: "Fin 0 \<le> mins xs \<longleftrightarrow> (\<forall>x \<in> set xs. Fin 0 \<le> x)"
  by (induction xs) auto

lemma evaluate_nonneg: "0 \<le> evaluate board p \<longleftrightarrow> winner_of board \<noteq> Some (getOpponent p)"
  using evaluate_neg[of board p] by (simp add: not_less[symmetric])

lemma evaluate_cases:
  "evaluate board p = 10 \<or> evaluate board p = - 10 \<or> evaluate board p = 0"
  by (simp add: evaluate_def)

text \<open>The sign of the minimax value tells whether the searcher can avoid defeat.\<close>

lemma minimax_value_sign:
  "md \<le> 10 \<Longrightarrow> Fin 0 \<le> minimax_value board d mx ai md \<longleftrightarrow> safe (md - d) board mx ai"
proof (induction "md - d" arbitrary: d board mx)
  case 0
  then show ?case by (simp add: minimax_value.simps evaluate_nonneg)
next
  case (Suc k)
  then have lt: "d < md" and k: "md - d = Suc k" "md - Suc d = k" by simp_all
  have d10: "int d < 10" using lt Suc.prems by simp
  have child: "Fin 0 \<le> minimax_value b (Suc d) mx' ai md \<longleftrightarrow> safe k b mx' ai" for b mx'
    using Suc.hyps(1)[of "Suc d" b mx'] k Suc.prems by simp
  show ?case
  proof (cases "terminal board")
    case True
    have "0 \<le> (if 0 < evaluate board ai then evaluate board ai - int d else evaluate board ai + int d)
        \<longleftrightarrow> 0 \<le> evaluate board ai"
      using evaluate_cases[of board ai] d10 by auto
    then show ?thesis
      using True lt k by (simp add: minimax_value.simps Let_def evaluate_nonneg)
  next
    case nt: False
    show ?thesis
    proof (cases "getAvailableMoves board = []")
      case True
      then show ?thesis using nt lt k by (simp add: minimax_value.simps)
    next
      case False
      then show ?thesis
        using nt lt k
        by (subst minimax_value.simps)
           (simp add: Fin0_le_maxs Fin0_le_mins child safe_some_iff safe_every_iff)
    qed
  qed
qed

text \<open>Every move fills a cell, so the number of available moves goes down.\<close>

lemma length_filter_subset_less:
  assumes "\<And>x. x \<in> set xs \<Longrightarrow> Q x \<Longrightarrow> P x" "x \<in> set xs" "P x" "\<not> Q x"
  shows "length (filter Q xs) < length (filter P xs)"
proof -
  have "filter Q (filter P xs) = filter Q xs"
    using assms(1) by (auto simp: filter_filter intro: filter_cong)
  moreover have "length (filter Q (filter P xs)) < length (filter P xs)"
    by (rule length_filter_less[of x]) (use assms in auto)
  ultimately show ?thesis by simp
qed

lemma cell_at_place:
  "cell_at (place board m p) r c =
     (if r = nat (row m) \<and> c = nat (col m) \<and> nat (row m) < length board
         \<and> nat (col m) < length (board ! nat (row m))
      then Some (Some p) else cell_at board r c)"
  unfolding place_def by (rule cell_at_update)

lemma available_decreases:
  assumes "m \<in> set (getAvailableMoves board)"
  shows "length (getAvailableMoves (place board m p)) < length (getAvailableMoves board)"
proof -
  let ?cells = "List.product [0..<length board] [0..<length board]"
  have m: "0 \<le> row m" "row m < int (length board)" "0 \<le> col m" "col m < int (length board)"
    "cell_at board (nat (row m)) (nat (col m)) = Some None"
    using assms by (simp_all add: available_iff)
  have in_cells: "(nat (row m), nat (col m)) \<in> set ?cells" using m by auto
  have not_after: "cell_at (place board m p) (nat (row m)) (nat (col m)) \<noteq> Some None"
    by (simp add: cell_at_place) (use m(5) in \<open>auto simp: cell_at_def split: if_splits\<close>)
  have sub: "cell_at (place board m p) r c = Some None \<Longrightarrow> cell_at board r c = Some None" for r c
    by (auto simp: cell_at_place split: if_splits)
  have "length (filter (\<lambda>(r, c). cell_at (place board m p) r c = Some None) ?cells)
      < length (filter (\<lambda>(r, c). cell_at board r c = Some None) ?cells)"
    by (rule length_filter_subset_less[of _ _ _ "(nat (row m), nat (col m))"])
       (use in_cells m(5) not_after sub in auto)
  then show ?thesis by (simp add: getAvailableMoves_filter)
qed

lemma safe_Suc_stable:
  "wf_board board \<Longrightarrow> length (getAvailableMoves board) \<le> n
     \<Longrightarrow> safe (Suc n) board mx ai = safe n board mx ai"
proof (induction n arbitrary: board mx)
  case 0
  then have "isBoardFull board" by (simp add: no_moves_full)
  then show ?case by (simp add: terminal_def)
next
  case (Suc n)
  have child: "safe (Suc n) (place board m p) mx' ai = safe n (place board m p) mx' ai"
    if "m \<in> set (getAvailableMoves board)" for m p mx'
  proof (rule Suc.IH)
    show "wf_board (place board m p)" by (rule wf_board_place[OF Suc.prems(1)])
    show "length (getAvailableMoves (place board m p)) \<le> n"
      using available_decreases[OF that, of p] Suc.prems(2) by simp
  qed
  show ?case
    unfolding safe.simps(2)[of "Suc n"] safe.simps(2)[of n]
    by (simp add: safe_some_iff safe_every_iff child del: safe.simps)
qed

lemma safe_stable:
  assumes "wf_board board" "length (getAvailableMoves board) \<le> n" "n \<le> n'"
  shows "safe n' board mx ai = safe n board mx ai"
  using assms(3,2)
proof (induction n' rule: dec_induct)
  case base
  then show ?case by simp
next
  case (step k)
  have "safe (Suc k) board mx ai = safe k board mx ai"
    by (rule safe_Suc_stable[OF assms(1)]) (use step in simp)
  then show ?case using step by simp
qed

lemma maxs_attained: "xs \<noteq> [] \<Longrightarrow> \<forall>x \<in> set xs. NegInf < x \<Longrightarrow> maxs xs \<in> set xs"
proof (induction xs)
  case Nil
  then show ?case by simp
next
  case (Cons x xs)
  show ?case
  proof (cases "xs = []")
    case True
    then show ?thesis using Cons.prems by (simp add: max_absorb1)
  next
    case False
    then have "maxs xs \<in> set xs" using Cons by simp
    then show ?thesis by (simp add: max_def)
  qed
qed

lemma safe_at_remaining:
  assumes "wf_board board" "length (getAvailableMoves board) \<le> n"
    "length (getAvailableMoves board) \<le> n'"
  shows "safe n board mx ai = safe n' board mx ai"
  using safe_stable[OF assms(1) order_refl assms(2), of mx ai]
    safe_stable[OF assms(1) order_refl assms(3), of mx ai] by simp

text \<open>
  In a position of size 3 from which defeat can be avoided, the move of the hard mode
  leads to a position from which defeat can still be avoided.
\<close>

lemma hard_move_safe:
  assumes wf: "wf_board board" and len: "length board = 3" and nt: "\<not> terminal board"
    and budget: "within_budget perf"
    and safe: "safe (Suc n) board True ai" and rem: "length (getAvailableMoves board) \<le> Suc n"
  shows "\<exists>this' res m. getBestMove perf random this board ai Hard = Inr (this', res)
           \<and> bm_move res = Some m \<and> m \<in> set (getAvailableMoves board)
           \<and> safe n (place board m ai) False ai"
proof -
  let ?cv = "\<lambda>m. minimax_value (place board m ai) (Suc 0) False ai 9"
  let ?V = "minimax_value board 0 True ai 9"
  have ne: "getAvailableMoves board \<noteq> []" by (rule not_terminal_moves[OF wf nt])
  have rem9: "length (getAvailableMoves board) \<le> 9"
    using length_available_le[of board] len by simp
  have V: "?V = maxs (map ?cv (getAvailableMoves board))"
    using nt ne by (subst minimax_value.simps) simp
  have "?V \<in> set (map ?cv (getAvailableMoves board))"
    unfolding V using ne minimax_value_finite by (intro maxs_attained) auto
  then have "\<exists>m \<in> set (getAvailableMoves board). ?cv m = ?V" by auto
  then obtain m where m: "find (\<lambda>m. ?cv m = ?V) (getAvailableMoves board) = Some m"
    "m \<in> set (getAvailableMoves board)" "?cv m = ?V"
    by (rule find_first)
  have "safe 9 board True ai"
    using safe safe_at_remaining[OF wf rem rem9, of True ai] by simp
  then have "Fin 0 \<le> ?V" using minimax_value_sign[of 9 board 0 True ai] by simp
  then have "Fin 0 \<le> ?cv m" using m(3) by simp
  then have s8: "safe 8 (place board m ai) False ai"
    using minimax_value_sign[of 9 "place board m ai" "Suc 0" False ai] by simp
  have dec: "length (getAvailableMoves (place board m ai)) < length (getAvailableMoves board)"
    by (rule available_decreases[OF m(2)])
  have "safe n (place board m ai) False ai = safe 8 (place board m ai) False ai"
    by (rule safe_at_remaining[OF wf_board_place[OF wf]]) (use dec rem rem9 in simp_all)
  then have sn: "safe n (place board m ai) False ai" using s8 by simp
  have "snd (alphabeta board 0 True ai NegInf PosInf 9) = Some m"
    using alphabeta_root[OF nt ne, of 9 ai] m(1) by simp
  then show ?thesis
    using getBestMove_hard_3x3[OF budget wf len, of random this ai] m(2) sn by auto
qed

lemma play_safe:
  assumes budget: "\<forall>k. within_budget (perfs k)" and legal: "legal_opponent opponent"
  shows "wf_board board \<Longrightarrow> length board = 3 \<Longrightarrow> length (getAvailableMoves board) \<le> n
     \<Longrightarrow> safe n board aiToMove ai
     \<Longrightarrow> \<exists>final. play n perfs randoms opponent ai this board aiToMove = Inr final
           \<and> wf_board final \<and> terminal final \<and> winner_of final \<noteq> Some (getOpponent ai)"
proof (induction n arbitrary: board this aiToMove)
  case 0
  then have "isBoardFull board" by (simp add: no_moves_full)
  then show ?case using "0.prems" by (simp add: terminal_def)
next
  case (Suc n)
  have pos: "0 < length board" using Suc.prems(2) by simp
  show ?case
  proof (cases "terminal board")
    case True
    then show ?thesis
      using Suc.prems by (simp add: isGameOver_terminal[OF pos])
  next
    case nt: False
    have ne: "getAvailableMoves board \<noteq> []" by (rule not_terminal_moves[OF Suc.prems(1) nt])
    show ?thesis
    proof (cases aiToMove)
      case True
      have sT: "safe (Suc n) board True ai" using Suc.prems(4) True by simp
      from hard_move_safe[OF Suc.prems(1,2) nt budget[rule_format, of n] sT Suc.prems(3),
          of "randoms n" this]
      obtain this' res m where
        g: "getBestMove (perfs n) (randoms n) this board ai Hard = Inr (this', res)"
        and m: "bm_move res = Some m" "m \<in> set (getAvailableMoves board)"
        and s: "safe n (place board m ai) False ai"
        by blast
      have "\<exists>final. play n perfs randoms opponent ai this' (place board m ai) False = Inr final
           \<and> wf_board final \<and> terminal final \<and> winner_of final \<noteq> Some (getOpponent ai)"
      proof (rule Suc.IH)
        show "wf_board (place board m ai)" by (rule wf_board_place[OF Suc.prems(1)])
        show "length (place board m ai) = 3" using Suc.prems(2) by simp
        show "length (getAvailableMoves (place board m ai)) \<le> n"
          using available_decreases[OF m(2), of ai] Suc.prems(3) by simp
        show "safe n (place board m ai) False ai" by (rule s)
      qed
      then show ?thesis
        using True nt g m by (simp add: isGameOver_terminal[OF pos] makeMove_available)
    next
      case False
      let ?m = "opponent n board"
      have "isValidMove board (row ?m) (col ?m)"
        using legal Suc.prems(1,2) nt
        by (simp add: legal_opponent_def isGameOver_terminal[OF pos])
      then have m: "?m \<in> set (getAvailableMoves board)" by (simp add: available_valid)
      have s: "safe n (place board ?m (getOpponent ai)) True ai"
        using Suc.prems(4) False nt ne m by (simp add: safe_every_iff)
      have "\<exists>final. play n perfs randoms opponent ai this (place board ?m (getOpponent ai)) True
             = Inr final
           \<and> wf_board final \<and> terminal final \<and> winner_of final \<noteq> Some (getOpponent ai)"
      proof (rule Suc.IH)
        show "wf_board (place board ?m (getOpponent ai))" by (rule wf_board_place[OF Suc.prems(1)])
        show "length (place board ?m (getOpponent ai)) = 3" using Suc.prems(2) by simp
        show "length (getAvailableMoves (place board ?m (getOpponent ai))) \<le> n"
          using available_decreases[OF m, of "getOpponent ai"] Suc.prems(3) by simp
        show "safe n (place board ?m (getOpponent ai)) True ai" by (rule s)
      qed
      then show ?thesis
        using False nt by (simp add: isGameOver_terminal[OF pos] makeMove_available[OF m] Let_def)
    qed
  qed
qed

lemma first_free_legal: "legal_opponent first_free_opponent"
proof -
  have "isValidMove board (row (first_free_opponent n board)) (col (first_free_opponent n board))"
    if "wf_board board" "isGameOver board = Inr False" for n board
  proof -
    have "\<not> terminal board"
      using that isGameOver_terminal[OF wf_board_pos[OF that(1)]] by simp
    then have "getAvailableMoves board \<noteq> []" by (rule not_terminal_moves[OF that(1)])
    then have "first_free_opponent n board \<in> set (getAvailableMoves board)"
      by (cases "getAvailableMoves board") (simp_all add: first_free_opponent_def)
    then show ?thesis by (simp add: available_valid)
  qed
  then show ?thesis by (simp add: legal_opponent_def)
qed

section \<open>Evaluating the searches on boards of size 3\<close>

lemma gwc_3:
  "generateWinningCombinations 3 =
     [[(0, 0), (0, 1), (0, 2)], [(1, 0), (1, 1), (1, 2)], [(2, 0), (2, 1), (2, 2)],
      [(0, 0), (1, 0), (2, 0)], [(0, 1), (1, 1), (2, 1)], [(0, 2), (1, 2), (2, 2)],
      [(0, 0), (1, 1), (2, 2)], [(0, 2), (1, 1), (2, 0)]]"
  by (simp add: generateWinningCombinations_def upt_rec)

lemma checkWinner_loop_line3:
  assumes "cell_at board r0 c0 = Some x" "cell_at board r1 c1 = Some y" "cell_at board r2 c2 = Some z"
  shows "(case checkWinner_loop board ([(r0, c0), (r1, c1), (r2, c2)] # rest) of
            Inl e \<Rightarrow> None | Inr res \<Rightarrow> winner res)
       = line3 x y z (case checkWinner_loop board rest of Inl e \<Rightarrow> None | Inr res \<Rightarrow> winner res)"
  using assms by (cases x) (auto simp: line3_def)

lemma cell_at_3x3:
  "cell_at [[a, b, c], [d, e, f], [g, h, i]] 0 0 = Some a"
  "cell_at [[a, b, c], [d, e, f], [g, h, i]] 0 1 = Some b"
  "cell_at [[a, b, c], [d, e, f], [g, h, i]] 0 2 = Some c"
  "cell_at [[a, b, c], [d, e, f], [g, h, i]] 1 0 = Some d"
  "cell_at [[a, b, c], [d, e, f], [g, h, i]] 1 1 = Some e"
  "cell_at [[a, b, c], [d, e, f], [g, h, i]] 1 2 = Some f"
  "cell_at [[a, b, c], [d, e, f], [g, h, i]] 2 0 = Some g"
  "cell_at [[a, b, c], [d, e, f], [g, h, i]] 2 1 = Some h"
  "cell_at [[a, b, c], [d, e, f], [g, h, i]] 2 2 = Some i"
  by (simp_all add: cell_at_def)

lemma winner_of_3x3:
  "winner_of [[a, b, c], [d, e, f], [g, h, i]] = winner3 a b c d e f g h i"
proof -
  have len: "length [[a, b, c], [d, e, f], [g, h, i]] = 3" by simp
  show ?thesis
    unfolding winner_of_def checkWinner_def len gwc_3 winner3_def
    apply (simp only: checkWinner_loop_line3[OF cell_at_3x3(1) cell_at_3x3(2) cell_at_3x3(3)]
          checkWinner_loop_line3[OF cell_at_3x3(4) cell_at_3x3(5) cell_at_3x3(6)]
          checkWinner_loop_line3[OF cell_at_3x3(7) cell_at_3x3(8) cell_at_3x3(9)]
          checkWinner_loop_line3[OF cell_at_3x3(1) cell_at_3x3(4) cell_at_3x3(7)]
          checkWinner_loop_line3[OF cell_at_3x3(2) cell_at_3x3(5) cell_at_3x3(8)]
          checkWinner_loop_line3[OF cell_at_3x3(3) cell_at_3x3(6) cell_at_3x3(9)]
          checkWinner_loop_line3[OF cell_at_3x3(1) cell_at_3x3(5) cell_at_3x3(9)]
          checkWinner_loop_line3[OF cell_at_3x3(3) cell_at_3x3(5) cell_at_3x3(7)])
    apply (simp only: checkWinner_loop.simps(1) sum.case winner_result.simps)
    done
qed

lemma isBoardFull_3x3:
  "isBoardFull [[a, b, c], [d, e, f], [g, h, i]] =
     (a \<noteq> None \<and> b \<noteq> None \<and> c \<noteq> None \<and> d \<noteq> None \<and> e \<noteq> None \<and> f \<noteq> None
      \<and> g \<noteq> None \<and> h \<noteq> None \<and> i \<noteq> None)"
  by (simp add: isBoardFull_def)

lemma free_cell_append:
  "(if Some x = Some None then [m] else []) @ rest = free_cell x m rest"
  by (simp add: free_cell_def)

lemma getAvailableMoves_3x3:
  "getAvailableMoves [[a, b, c], [d, e, f], [g, h, i]] =
     free_cell a \<lparr>row = 0, col = 0\<rparr> (free_cell b \<lparr>row = 0, col = 1\<rparr> (free_cell c \<lparr>row = 0, col = 2\<rparr>
    (free_cell d \<lparr>row = 1, col = 0\<rparr> (free_cell e \<lparr>row = 1, col = 1\<rparr> (free_cell f \<lparr>row = 1, col = 2\<rparr>
    (free_cell g \<lparr>row = 2, col = 0\<rparr> (free_cell h \<lparr>row = 2, col = 1\<rparr> (free_cell i \<lparr>row = 2, col = 2\<rparr>
      []))))))))"
proof -
  have u: "[0..<length [[a, b, c], [d, e, f], [g, h, i]]] = [0, 1, 2]"
    by (simp add: upt_rec)
  have ap: "(if Some x = Some None then [m] else []) @ rest = free_cell x m rest" for x m rest
    by (simp add: free_cell_def)
  have "getAvailableMoves [[a, b, c], [d, e, f], [g, h, i]] =
      ((if Some a = Some None then [\<lparr>row = 0, col = 0\<rparr>] else [])
       @ (if Some b = Some None then [\<lparr>row = 0, col = 1\<rparr>] else [])
       @ (if Some c = Some None then [\<lparr>row = 0, col = 2\<rparr>] else []) @ [])
      @ ((if Some d = Some None then [\<lparr>row = 1, col = 0\<rparr>] else [])
       @ (if Some e = Some None then [\<lparr>row = 1, col = 1\<rparr>] else [])
       @ (if Some f = Some None then [\<lparr>row = 1, col = 2\<rparr>] else []) @ [])
      @ ((if Some g = Some None then [\<lparr>row = 2, col = 0\<rparr>] else [])
       @ (if Some h = Some None then [\<lparr>row = 2, col = 1\<rparr>] else [])
       @ (if Some i = Some None then [\<lparr>row = 2, col = 2\<rparr>] else []) @ []) @ []"
    unfolding getAvailableMoves_def Let_def u
    by (simp only: list.map concat.simps cell_at_3x3 of_nat_0 of_nat_1 of_nat_numeral)
  also have "\<dots> = free_cell a \<lparr>row = 0, col = 0\<rparr> (free_cell b \<lparr>row = 0, col = 1\<rparr> (free_cell c \<lparr>row = 0, col = 2\<rparr>
    (free_cell d \<lparr>row = 1, col = 0\<rparr> (free_cell e \<lparr>row = 1, col = 1\<rparr> (free_cell f \<lparr>row = 1, col = 2\<rparr>
    (free_cell g \<lparr>row = 2, col = 0\<rparr> (free_cell h \<lparr>row = 2, col = 1\<rparr> (free_cell i \<lparr>row = 2, col = 2\<rparr>
      []))))))))"
    by (simp only: ap[symmetric] append_assoc append_Nil2)
  finally show ?thesis .
qed

lemma place_3x3:
  "place [[a, b, c], [d, e, f], [g, h, i]] \<lparr>row = 0, col = 0\<rparr> p = [[Some p, b, c], [d, e, f], [g, h, i]]"
  "place [[a, b, c], [d, e, f], [g, h, i]] \<lparr>row = 0, col = 1\<rparr> p = [[a, Some p, c], [d, e, f], [g, h, i]]"
  "place [[a, b, c], [d, e, f], [g, h, i]] \<lparr>row = 0, col = 2\<rparr> p = [[a, b, Some p], [d, e, f], [g, h, i]]"
  "place [[a, b, c], [d, e, f], [g, h, i]] \<lparr>row = 1, col = 0\<rparr> p = [[a, b, c], [Some p, e, f], [g, h, i]]"
  "place [[a, b, c], [d, e, f], [g, h, i]] \<lparr>row = 1, col = 1\<rparr> p = [[a, b, c], [d, Some p, f], [g, h, i]]"
  "place [[a, b, c], [d, e, f], [g, h, i]] \<lparr>row = 1, col = 2\<rparr> p = [[a, b, c], [d, e, Some p], [g, h, i]]"
  "place [[a, b, c], [d, e, f], [g, h, i]] \<lparr>row = 2, col = 0\<rparr> p = [[a, b, c], [d, e, f], [Some p, h, i]]"
  "place [[a, b, c], [d, e, f], [g, h, i]] \<lparr>row = 2, col = 1\<rparr> p = [[a, b, c], [d, e, f], [g, Some p, i]]"
  "place [[a, b, c], [d, e, f], [g, h, i]] \<lparr>row = 2, col = 2\<rparr> p = [[a, b, c], [d, e, f], [g, h, Some p]]"
  by (simp_all add: place_def)

lemma wf_board_3x3: "wf_board [[a, b, c], [d, e, f], [g, h, i]]"
  by (simp add: wf_board_def)

lemma alphabeta_3x3:
  "alphabeta [[a, b, c], [d, e, f], [g, h, i]] depth mx ai alpha beta maxDepth =
     alphabeta_node (winner3 a b c d e f g h i) [[a, b, c], [d, e, f], [g, h, i]]
       depth mx ai alpha beta maxDepth"
  by (subst alphabeta.simps)
     (simp add: alphabeta_node_def alphabeta_moves_def terminal_def evaluate_def score_for_def
        adjusted_def winner_of_3x3 Let_def)

lemma alphabeta_max_Cons:
  "alphabeta_max board depth ai maxDepth (m # rest) maxEval bestMove alpha beta =
     alphabeta_max_step (fst (alphabeta (place board m ai) (depth + 1) False ai alpha beta maxDepth))
       board depth ai maxDepth m rest maxEval bestMove alpha beta"
  by (simp add: alphabeta_max_step_def Let_def)

lemma alphabeta_min_Cons:
  "alphabeta_min board depth ai maxDepth (m # rest) minEval bestMove alpha beta =
     alphabeta_min_step
       (fst (alphabeta (place board m (getOpponent ai)) (depth + 1) True ai alpha beta maxDepth))
       board depth ai maxDepth m rest minEval bestMove alpha beta"
  by (simp add: alphabeta_min_step_def Let_def)

lemma safe_3x3:
  "safe (Suc n) [[a, b, c], [d, e, f], [g, h, i]] aiToMove ai =
     safe_node (winner3 a b c d e f g h i) n [[a, b, c], [d, e, f], [g, h, i]] aiToMove ai"
proof -
  have "getAvailableMoves [[a, b, c], [d, e, f], [g, h, i]] \<noteq> []"
    if "\<not> terminal [[a, b, c], [d, e, f], [g, h, i]]"
    using not_terminal_moves[OF wf_board_3x3 that] .
  then show ?thesis
    by (auto simp: safe_node_def terminal_def winner_of_3x3)
qed

lemma safe_3x3_numeral:
  "safe (numeral k) [[a, b, c], [d, e, f], [g, h, i]] aiToMove ai =
     safe_node (winner3 a b c d e f g h i) (pred_numeral k) [[a, b, c], [d, e, f], [g, h, i]] aiToMove ai"
  unfolding numeral_eq_Suc by (rule safe_3x3)

lemma safe_3x3_one:
  "safe (Suc 0) [[a, b, c], [d, e, f], [g, h, i]] aiToMove ai =
     safe_node (winner3 a b c d e f g h i) 0 [[a, b, c], [d, e, f], [g, h, i]] aiToMove ai"
  by (rule safe_3x3)

lemmas eval_safe_3x3 =
  safe_3x3_numeral safe_3x3_one safe_node_def
  winner3_def line3_def free_cell_def getOpponent_def
  isBoardFull_3x3 getAvailableMoves_3x3 place_3x3 winner_of_3x3

lemmas eval_alphabeta_3x3 =
  alphabeta_3x3 alphabeta_max_Cons alphabeta_min_Cons 
  alphabeta_node_def alphabeta_moves_def alphabeta_max_step_def alphabeta_min_step_def
  winner3_def line3_def free_cell_def score_for_def adjusted_def getOpponent_def
  isBoardFull_3x3 getAvailableMoves_3x3 place_3x3 max_def min_def


lemma createEmptyBoard_3:
  "createEmptyBoard 3 = [[None, None, None], [None, None, None], [None, None, None]]"
  by (simp add: createEmptyBoard_def numeral_3_eq_3)

lemma safe_first_X:
  "safe 9 [[None, None, None], [None, None, None], [None, None, None]] True PLAYER_X"
  by (simp add: eval_safe_3x3 del: safe.simps(2))

lemma safe_second_X_0:
  "safe 8 [[Some PLAYER_O, None, None], [None, None, None], [None, None, None]] True PLAYER_X"
  by (simp add: eval_safe_3x3 del: safe.simps(2))

lemma safe_second_X_1:
  "safe 8 [[None, Some PLAYER_O, None], [None, None, None], [None, None, None]] True PLAYER_X"
  by (simp add: eval_safe_3x3 del: safe.simps(2))

lemma safe_second_X_2:
  "safe 8 [[None, None, Some PLAYER_O], [None, None, None], [None, None, None]] True PLAYER_X"
  by (simp add: eval_safe_3x3 del: safe.simps(2))

lemma safe_second_X_3:
  "safe 8 [[None, None, None], [Some PLAYER_O, None, None], [None, None, None]] True PLAYER_X"
  by (simp add: eval_safe_3x3 del: safe.simps(2))

lemma safe_second_X_4:
  "safe 8 [[None, None, None], [None, Some PLAYER_O, None], [None, None, None]] True PLAYER_X"
  by (simp add: eval_safe_3x3 del: safe.simps(2))

lemma safe_second_X_5:
  "safe 8 [[None, None, None], [None, None, Some PLAYER_O], [None, None, None]] True PLAYER_X"
  by (simp add: eval_safe_3x3 del: safe.simps(2))

lemma safe_second_X_6:
  "safe 8 [[None, None, None], [None, None, None], [Some PLAYER_O, None, None]] True PLAYER_X"
  by (simp add: eval_safe_3x3 del: safe.simps(2))

lemma safe_second_X_7:
  "safe 8 [[None, None, None], [None, None, None], [None, Some PLAYER_O, None]] True PLAYER_X"
  by (simp add: eval_safe_3x3 del: safe.simps(2))

lemma safe_second_X_8:
  "safe 8 [[None, None, None], [None, None, None], [None, None, Some PLAYER_O]] True PLAYER_X"
  by (simp add: eval_safe_3x3 del: safe.simps(2))

lemma safe_first_O:
  "safe 9 [[None, None, None], [None, None, None], [None, None, None]] True PLAYER_O"
  by (simp add: eval_safe_3x3 del: safe.simps(2))

lemma safe_second_O_0:
  "safe 8 [[Some PLAYER_X, None, None], [None, None, None], [None, None, None]] True PLAYER_O"
  by (simp add: eval_safe_3x3 del: safe.simps(2))

lemma safe_second_O_1:
  "safe 8 [[None, Some PLAYER_X, None], [None, None, None], [None, None, None]] True PLAYER_O"
  by (simp add: eval_safe_3x3 del: safe.simps(2))

lemma safe_second_O_2:
  "safe 8 [[None, None, Some PLAYER_X], [None, None, None], [None, None, None]] True PLAYER_O"
  by (simp add: eval_safe_3x3 del: safe.simps(2))

lemma safe_second_O_3:
  "safe 8 [[None, None, None], [Some PLAYER_X, None, None], [None, None, None]] True PLAYER_O"
  by (simp add: eval_safe_3x3 del: safe.simps(2))

lemma safe_second_O_4:
  "safe 8 [[None, None, None], [None, Some PLAYER_X, None], [None, None, None]] True PLAYER_O"
  by (simp add: eval_safe_3x3 del: safe.simps(2))

lemma safe_second_O_5:
  "safe 8 [[None, None, None], [None, None, Some PLAYER_X], [None, None, None]] True PLAYER_O"
  by (simp add: eval_safe_3x3 del: safe.simps(2))

lemma safe_second_O_6:
  "safe 8 [[None, None, None], [None, None, None], [Some PLAYER_X, None, None]] True PLAYER_O"
  by (simp add: eval_safe_3x3 del: safe.simps(2))

lemma safe_second_O_7:
  "safe 8 [[None, None, None], [None, None, None], [None, Some PLAYER_X, None]] True PLAYER_O"
  by (simp add: eval_safe_3x3 del: safe.simps(2))

lemma safe_second_O_8:
  "safe 8 [[None, None, None], [None, None, None], [None, None, Some PLAYER_X]] True PLAYER_O"
  by (simp add: eval_safe_3x3 del: safe.simps(2))

lemma opening_0:
  "fst (alphabeta [[Some PLAYER_X, None, None], [None, None, None], [None, None, None]] 1 False PLAYER_X NegInf PosInf 9) = Fin 0"
  by (simp add: eval_alphabeta_3x3 del: alphabeta_max.simps(2) alphabeta_min.simps(2))

lemma opening_1:
  "fst (alphabeta [[None, Some PLAYER_X, None], [None, None, None], [None, None, None]] 1 False PLAYER_X (Fin 0) PosInf 9) = Fin 0"
  by (simp add: eval_alphabeta_3x3 del: alphabeta_max.simps(2) alphabeta_min.simps(2))

lemma opening_2:
  "fst (alphabeta [[None, None, Some PLAYER_X], [None, None, None], [None, None, None]] 1 False PLAYER_X (Fin 0) PosInf 9) = Fin 0"
  by (simp add: eval_alphabeta_3x3 del: alphabeta_max.simps(2) alphabeta_min.simps(2))

lemma opening_3:
  "fst (alphabeta [[None, None, None], [Some PLAYER_X, None, None], [None, None, None]] 1 False PLAYER_X (Fin 0) PosInf 9) = Fin 0"
  by (simp add: eval_alphabeta_3x3 del: alphabeta_max.simps(2) alphabeta_min.simps(2))

lemma opening_4:
  "fst (alphabeta [[None, None, None], [None, Some PLAYER_X, None], [None, None, None]] 1 False PLAYER_X (Fin 0) PosInf 9) = Fin 0"
  by (simp add: eval_alphabeta_3x3 del: alphabeta_max.simps(2) alphabeta_min.simps(2))

lemma opening_5:
  "fst (alphabeta [[None, None, None], [None, None, Some PLAYER_X], [None, None, None]] 1 False PLAYER_X (Fin 0) PosInf 9) = Fin 0"
  by (simp add: eval_alphabeta_3x3 del: alphabeta_max.simps(2) alphabeta_min.simps(2))

lemma opening_6:
  "fst (alphabeta [[None, None, None], [None, None, None], [Some PLAYER_X, None, None]] 1 False PLAYER_X (Fin 0) PosInf 9) = Fin 0"
  by (simp add: eval_alphabeta_3x3 del: alphabeta_max.simps(2) alphabeta_min.simps(2))

lemma opening_7:
  "fst (alphabeta [[None, None, None], [None, None, None], [None, Some PLAYER_X, None]] 1 False PLAYER_X (Fin 0) PosInf 9) = Fin 0"
  by (simp add: eval_alphabeta_3x3 del: alphabeta_max.simps(2) alphabeta_min.simps(2))

lemma opening_8:
  "fst (alphabeta [[None, None, None], [None, None, None], [None, None, Some PLAYER_X]] 1 False PLAYER_X (Fin 0) PosInf 9) = Fin 0"
  by (simp add: eval_alphabeta_3x3 del: alphabeta_max.simps(2) alphabeta_min.simps(2))
section \<open>The opening and the complete game on a board of size 3\<close>

text \<open>
  The search from the empty board, and the positions after each first move of the
  opponent, assembled from the values of the nine openings.
\<close>

lemmas opening_values =
  opening_0 opening_1 opening_2 opening_3 opening_4 opening_5 opening_6 opening_7 opening_8

lemma alphabeta_empty:
  "alphabeta [[None, None, None], [None, None, None], [None, None, None]] 0 True PLAYER_X
     NegInf PosInf 9 = (Fin 0, Some \<lparr>row = 0, col = 0\<rparr>)"
  apply (subst alphabeta_3x3)
  apply (simp add: alphabeta_node_def alphabeta_moves_def alphabeta_max_Cons alphabeta_max_step_def
      winner3_def line3_def free_cell_def isBoardFull_3x3 getAvailableMoves_3x3 place_3x3
      opening_values[unfolded One_nat_def] max_def
      del: alphabeta_max.simps(2) alphabeta_min.simps(2))
  done

lemmas safe_second_X =
  safe_second_X_0 safe_second_X_1 safe_second_X_2 safe_second_X_3 safe_second_X_4
  safe_second_X_5 safe_second_X_6 safe_second_X_7 safe_second_X_8

lemmas safe_second_O =
  safe_second_O_0 safe_second_O_1 safe_second_O_2 safe_second_O_3 safe_second_O_4
  safe_second_O_5 safe_second_O_6 safe_second_O_7 safe_second_O_8

lemma safe_reply_X:
  "safe 9 [[None, None, None], [None, None, None], [None, None, None]] False PLAYER_X"
  apply (subst safe_3x3_numeral)
  apply (simp add: safe_node_def winner3_def line3_def free_cell_def isBoardFull_3x3
      getAvailableMoves_3x3 place_3x3 getOpponent_def safe_second_X del: safe.simps(2))
  done

lemma safe_reply_O:
  "safe 9 [[None, None, None], [None, None, None], [None, None, None]] False PLAYER_O"
  apply (subst safe_3x3_numeral)
  apply (simp add: safe_node_def winner3_def line3_def free_cell_def isBoardFull_3x3
      getAvailableMoves_3x3 place_3x3 getOpponent_def safe_second_O del: safe.simps(2))
  done

lemma safe_empty: "safe 9 (createEmptyBoard 3) aiToMove ai"
  unfolding createEmptyBoard_3
  by (cases ai; cases aiToMove) (simp_all only: safe_first_X safe_first_O safe_reply_X safe_reply_O)

lemma hard_move_available:
  assumes wf: "wf_board board" and len: "length board = 3" and nt: "\<not> terminal board"
    and budget: "within_budget perf"
  shows "\<exists>m. chosen_move (getBestMove perf random this board ai Hard) = Some m
           \<and> m \<in> set (getAvailableMoves board)"
proof -
  let ?cv = "\<lambda>m. minimax_value (place board m ai) (Suc 0) False ai 9"
  let ?V = "minimax_value board 0 True ai 9"
  have ne: "getAvailableMoves board \<noteq> []" by (rule not_terminal_moves[OF wf nt])
  have V: "?V = maxs (map ?cv (getAvailableMoves board))"
    using nt ne by (subst minimax_value.simps) simp
  have "?V \<in> set (map ?cv (getAvailableMoves board))"
    unfolding V using ne minimax_value_finite by (intro maxs_attained) auto
  then have "\<exists>m \<in> set (getAvailableMoves board). ?cv m = ?V" by auto
  then obtain m where m: "find (\<lambda>m. ?cv m = ?V) (getAvailableMoves board) = Some m"
    "m \<in> set (getAvailableMoves board)" "?cv m = ?V"
    by (rule find_first)
  have "snd (alphabeta board 0 True ai NegInf PosInf 9) = Some m"
    using alphabeta_root[OF nt ne, of 9 ai] m(1) by simp
  then show ?thesis
    using getBestMove_hard_3x3[OF budget wf len, of random this ai] m(2)
    by (auto simp: chosen_move_def)
qed

lemma hard_opponent_legal: "legal_opponent (hard_opponent aiPlayer)"
proof -
  have "isValidMove board (row (hard_opponent aiPlayer n board)) (col (hard_opponent aiPlayer n board))"
    if "wf_board board" "length board = 3" "isGameOver board = Inr False" for n board
  proof -
    have "\<not> terminal board"
      using that isGameOver_terminal[OF wf_board_pos[OF that(1)]] by simp
    from hard_move_available[OF that(1,2) this within_budget_steady,
        of "fixed_random 0" new_engine "getOpponent aiPlayer"]
    have "hard_opponent aiPlayer n board \<in> set (getAvailableMoves board)"
      by (auto simp: hard_opponent_def)
    then show ?thesis by (simp add: available_valid)
  qed
  then show ?thesis by (simp add: legal_opponent_def)
qed

lemma wf_createEmptyBoard_3: "wf_board (createEmptyBoard 3)"
  unfolding createEmptyBoard_3 by (rule wf_board_3x3)

lemma length_createEmptyBoard_3: "length (createEmptyBoard 3) = 3"
  unfolding createEmptyBoard_3 by simp

lemma getBestMove_empty_3x3:
  assumes "within_budget perf"
  shows "chosen_move (getBestMove perf random this (createEmptyBoard 3) PLAYER_X Hard)
           = Some \<lparr>row = 0, col = 0\<rparr>
       \<and> reported_score (getBestMove perf random this (createEmptyBoard 3) PLAYER_X Hard)
           = Some (Fin 0)"
proof -
  have ab: "alphabeta (createEmptyBoard 3) 0 True PLAYER_X NegInf PosInf 9
      = (Fin 0, Some \<lparr>row = 0, col = 0\<rparr>)"
    unfolding createEmptyBoard_3 by (rule alphabeta_empty)
  from getBestMove_hard_3x3[OF assms wf_createEmptyBoard_3 length_createEmptyBoard_3,
      of random this PLAYER_X]
  show ?thesis
    unfolding ab by (auto simp: chosen_move_def reported_score_def)
qed

lemma game_never_lost:
  assumes "\<forall>k. within_budget (perfs k)" and "legal_opponent opponent"
  shows "\<exists>final. play 9 perfs randoms opponent aiPlayer this (createEmptyBoard 3) aiFirst
             = Inr final
          \<and> isGameOver final = Inr True
          \<and> (\<exists>res. checkWinner final = Inr res \<and> winner res \<noteq> Some (getOpponent aiPlayer))"
proof -
  have rem: "length (getAvailableMoves (createEmptyBoard 3)) \<le> 9"
    using length_available_le[of "createEmptyBoard 3"] unfolding length_createEmptyBoard_3
    by simp
  from play_safe[OF assms wf_createEmptyBoard_3 length_createEmptyBoard_3 rem safe_empty,
      of randoms aiPlayer this aiFirst]
  obtain final where f: "play 9 perfs randoms opponent aiPlayer this (createEmptyBoard 3) aiFirst
        = Inr final" "wf_board final" "terminal final"
      "winner_of final \<noteq> Some (getOpponent aiPlayer)"
    by blast
  have pos: "0 < length final" by (rule wf_board_pos[OF f(2)])
  have "isGameOver final = Inr True"
    using f(3) by (simp add: isGameOver_terminal[OF pos])
  moreover have "\<exists>res. checkWinner final = Inr res \<and> winner res \<noteq> Some (getOpponent aiPlayer)"
    by (rule checkWinner_Inr[OF pos]) (use f(4) in simp)
  ultimately show ?thesis using f(1) by blast
qed

lemma within_budget_steady_clocks: "\<forall>k. within_budget (steady_clocks k)"
  by (simp add: steady_clocks_def within_budget_steady)

text \<open>
  Claim C3. The statement that the hard mode opens on the centre of the empty board of
  size 3 does not hold: with mover \<open>X\<close>, under the steady clock, the engine returns the
  corner \<open>(0, 0)\<close>, which is not \<^verbatim>\<open>getCenterPosition(3)\<close>.
\<close>

theorem empty_board_opening_is_corner:
  "chosen_move (getBestMove steady_clock (fixed_random 0) new_engine (createEmptyBoard 3)
      PLAYER_X Hard) = Some \<lparr>row = 0, col = 0\<rparr>
   \<and> chosen_move (getBestMove steady_clock (fixed_random 0) new_engine (createEmptyBoard 3)
      PLAYER_X Hard) \<noteq> Some (getCenterPosition 3)"
  using getBestMove_empty_3x3[OF within_budget_steady, of "fixed_random 0" new_engine]
  by (simp add: getCenterPosition_def)

text \<open>
  Claim C3, as amended. For the empty board of size 3, a hard-mode call with mover \<open>X\<close>
  that stays within its time budget returns the corner cell \<open>(0, 0)\<close>, the first cell in
  row-major order, with reported score 0, whatever the random draws and the engine's
  previous counters: all nine openings have minimax value 0, and the search keeps the
  first move that reaches the best value.
\<close>

theorem hard_mode_opening_3x3:
  assumes "within_budget perf"
  shows "chosen_move (getBestMove perf random this (createEmptyBoard 3) PLAYER_X Hard)
           = Some \<lparr>row = 0, col = 0\<rparr>
       \<and> reported_score (getBestMove perf random this (createEmptyBoard 3) PLAYER_X Hard)
           = Some (Fin 0)"
  by (rule getBestMove_empty_3x3[OF assms])

theorem hard_mode_opening_3x3_witness:
  "within_budget steady_clock
   \<and> chosen_move (getBestMove steady_clock (fixed_random (1 / 2))
        \<lparr>positionsEvaluated = 7, startTime = 3, timeoutReached = True\<rparr>
        (createEmptyBoard 3) PLAYER_X Hard) = Some \<lparr>row = 0, col = 0\<rparr>
   \<and> reported_score (getBestMove steady_clock (fixed_random (1 / 2))
        \<lparr>positionsEvaluated = 7, startTime = 3, timeoutReached = True\<rparr>
        (createEmptyBoard 3) PLAYER_X Hard) = Some (Fin 0)"
  using hard_mode_opening_3x3[OF within_budget_steady, of "fixed_random (1 / 2)"
      "\<lparr>positionsEvaluated = 7, startTime = 3, timeoutReached = True\<rparr>"]
    within_budget_steady
  by simp

text \<open>
  Claim C2, as amended. On a board of size 3, a game in which the hard mode chooses
  every move of its mark, and in which no call of the engine exceeds its time budget,
  never ends in a win for the other mark. For either mark \<open>aiPlayer\<close>, whether the
  engine moves first or second (\<open>aiFirst\<close>), for every legal opponent, the hard mode
  itself included, and for all clocks within the budget: the game started on the empty
  board is over within nine plies without an error, and \<^verbatim>\<open>checkWinner\<close> of the final
  position does not report the opponent, so the game is a draw or a win of the hard mode.
\<close>

theorem hard_mode_never_loses:
  assumes "\<forall>k. within_budget (perfs k)" and "legal_opponent opponent"
  shows "\<exists>final. play 9 perfs randoms opponent aiPlayer this (createEmptyBoard 3) aiFirst
             = Inr final
          \<and> isGameOver final = Inr True
          \<and> (\<exists>res. checkWinner final = Inr res \<and> winner res \<noteq> Some (getOpponent aiPlayer))"
  by (rule game_never_lost[OF assms])

theorem hard_mode_never_loses_witness:
  "(\<forall>k. within_budget (steady_clocks k))
   \<and> legal_opponent (hard_opponent PLAYER_X)
   \<and> (\<exists>final. play 9 steady_clocks (fixed_randoms 0) (hard_opponent PLAYER_X) PLAYER_X
                  new_engine (createEmptyBoard 3) True = Inr final
          \<and> isGameOver final = Inr True
          \<and> (\<exists>res. checkWinner final = Inr res \<and> winner res \<noteq> Some PLAYER_O))
   \<and> legal_opponent first_free_opponent
   \<and> (\<exists>final. play 9 steady_clocks (fixed_randoms 0) first_free_opponent PLAYER_O
                  new_engine (createEmptyBoard 3) False = Inr final
          \<and> isGameOver final = Inr True
          \<and> (\<exists>res. checkWinner final = Inr res \<and> winner res \<noteq> Some PLAYER_X))"
  using hard_mode_never_loses[OF within_budget_steady_clocks hard_opponent_legal,
      of "fixed_randoms 0" PLAYER_X PLAYER_X new_engine True]
    hard_mode_never_loses[OF within_budget_steady_clocks first_free_legal,
      of "fixed_randoms 0" PLAYER_O new_engine False]
    within_budget_steady_clocks hard_opponent_legal first_free_legal
  by (simp add: getOpponent_def)

lemma preferring_legal: "legal_opponent (preferring_opponent prefs)"
proof -
  have "isValidMove board (row (preferring_opponent prefs n board))
          (col (preferring_opponent prefs n board))"
    if "wf_board board" "length board = 3" "isGameOver board = Inr False" for n board
  proof (cases "find (\<lambda>m. isValidMove board (row m) (col m)) prefs")
    case None
    then show ?thesis
      using first_free_legal that by (simp add: preferring_opponent_def legal_opponent_def)
  next
    case (Some m)
    then have "isValidMove board (row m) (col m)"
      by (auto simp: find_Some_iff)
    then show ?thesis
      using Some by (simp add: preferring_opponent_def)
  qed
  then show ?thesis by (simp add: legal_opponent_def)
qed

lemma slow_clock_over_budget: "\<not> within_budget slow_clock"
  by (simp add: within_budget_def slow_clock_def maxThinkingTime_def)

text \<open>
  Claim C2 as stated fails when the calls exceed the time budget. Under a clock that
  reads 501 ms at every node, each search is aborted at its hundredth node and returns
  the best move found so far. The hard mode plays \<open>O\<close> and moves second; the opponent
  takes the centre and then the two ends of the anti-diagonal, which is legal; the
  engine answers with \<open>(0, 0)\<close> and \<open>(1, 2)\<close>, and the game ends with the anti-diagonal
  complete: \<^verbatim>\<open>checkWinner\<close> reports \<open>X\<close>, the opponent of the hard mode.
\<close>

theorem hard_mode_loses_over_budget:
  "\<not> within_budget slow_clock
   \<and> legal_opponent (preferring_opponent
         [\<lparr>row = 1, col = 1\<rparr>, \<lparr>row = 0, col = 2\<rparr>, \<lparr>row = 2, col = 0\<rparr>])
   \<and> play 9 slow_clocks (fixed_randoms 0)
        (preferring_opponent [\<lparr>row = 1, col = 1\<rparr>, \<lparr>row = 0, col = 2\<rparr>, \<lparr>row = 2, col = 0\<rparr>])
        PLAYER_O new_engine (createEmptyBoard 3) False
      = Inr [[Some PLAYER_O, None, Some PLAYER_X], [None, Some PLAYER_X, Some PLAYER_O],
             [Some PLAYER_X, None, None]]
   \<and> isGameOver [[Some PLAYER_O, None, Some PLAYER_X], [None, Some PLAYER_X, Some PLAYER_O],
             [Some PLAYER_X, None, None]] = Inr True
   \<and> checkWinner [[Some PLAYER_O, None, Some PLAYER_X], [None, Some PLAYER_X, Some PLAYER_O],
             [Some PLAYER_X, None, None]]
      = Inr \<lparr>winner = Some (getOpponent PLAYER_O), winningLine = Some [(0, 2), (1, 1), (2, 0)]\<rparr>"
proof (intro conjI)
  show "\<not> within_budget slow_clock" by (rule slow_clock_over_budget)
  show "legal_opponent (preferring_opponent
         [\<lparr>row = 1, col = 1\<rparr>, \<lparr>row = 0, col = 2\<rparr>, \<lparr>row = 2, col = 0\<rparr>])"
    by (rule preferring_legal)
  show "play 9 slow_clocks (fixed_randoms 0)
        (preferring_opponent [\<lparr>row = 1, col = 1\<rparr>, \<lparr>row = 0, col = 2\<rparr>, \<lparr>row = 2, col = 0\<rparr>])
        PLAYER_O new_engine (createEmptyBoard 3) False
      = Inr [[Some PLAYER_O, None, Some PLAYER_X], [None, Some PLAYER_X, Some PLAYER_O],
             [Some PLAYER_X, None, None]]"
    by code_simp
  show "isGameOver [[Some PLAYER_O, None, Some PLAYER_X], [None, Some PLAYER_X, Some PLAYER_O],
             [Some PLAYER_X, None, None]] = Inr True"
    by code_simp
  show "checkWinner [[Some PLAYER_O, None, Some PLAYER_X], [None, Some PLAYER_X, Some PLAYER_O],
             [Some PLAYER_X, None, None]]
      = Inr \<lparr>winner = Some (getOpponent PLAYER_O), winningLine = Some [(0, 2), (1, 1), (2, 0)]\<rparr>"
    by code_simp
qed

end
